theory Spec2Isabelle
  imports Main "HOL-Library.Word"
begin

unbundle bit_operations_syntax

section \<open>C values shared by the two tables\<close>

text \<open>
  A \<^verbatim>\<open>char *\<close> is \<^verbatim>\<open>NULL\<close>, a pointer to a live NUL-terminated buffer, or a
  pointer whose buffer has been released with \<^verbatim>\<open>free\<close>. A live buffer is represented
  by its bytes before the terminator. Reading through \<^verbatim>\<open>NULL\<close> or through a released
  pointer is undefined behaviour in C; the model makes it a fault value, as it does a
  write past the end of a buffer, a \<^verbatim>\<open>read\<close> that never returns (\<open>Blocked\<close>) and the
  \<^verbatim>\<open>exit(1)\<close> of the server after a failed \<^verbatim>\<open>read\<close> (\<open>Exited\<close>).
\<close>

datatype cptr = Null | Ptr string | Dangling

datatype fault = NullDeref | UseAfterFree | BufferOverflow | Blocked | Exited

text \<open>\<^verbatim>\<open>strdup\<close>: the flag says whether the allocation succeeds.\<close>

definition strdup :: "bool \<Rightarrow> string \<Rightarrow> cptr" where
  "strdup ok s = (if ok then Ptr s else Null)"

text \<open>\<^verbatim>\<open>strcmp(p, s) == 0\<close> for a stored pointer \<open>p\<close> and a live argument \<open>s\<close>.\<close>

fun streq :: "cptr \<Rightarrow> string \<Rightarrow> fault + bool" where
  "streq Null s = Inl NullDeref"
| "streq Dangling s = Inl UseAfterFree"
| "streq (Ptr t) s = Inr (t = s)"

text \<open>The struct \<^verbatim>\<open>kv_entry\<close>, the same in both files.\<close>

record kv_entry =
  key :: cptr
  val :: cptr
  used :: int
  deleted :: int

text \<open>What \<^verbatim>\<open>memset(.., 0, ..)\<close> and \<^verbatim>\<open>calloc\<close> leave in a slot.\<close>

definition zero_entry :: kv_entry where
  "zero_entry = \<lparr>key = Null, val = Null, used = 0, deleted = 0\<rparr>"

text \<open>The three slot states of the specification, read off the two flags.\<close>

datatype slot_state = Empty | Occupied | Tombstone

definition state_of :: "kv_entry \<Rightarrow> slot_state" where
  "state_of e = (if used e = 0 then Empty else if deleted e \<noteq> 0 then Tombstone else Occupied)"

section \<open>The hash function\<close>

definition FNV_OFFSET :: "64 word" where
  "FNV_OFFSET = 14695981039346656037"

definition FNV_PRIME :: "64 word" where
  "FNV_PRIME = 1099511628211"

text \<open>
  \<^verbatim>\<open>fnv_hash\<close> of the server: the \<^verbatim>\<open>for\<close> loop over the bytes up to the terminator,
  with the accumulator made an argument.
\<close>

fun fnv_hash_loop :: "64 word \<Rightarrow> string \<Rightarrow> 64 word" where
  "fnv_hash_loop hash [] = hash"
| "fnv_hash_loop hash (p # ps) = fnv_hash_loop ((hash XOR of_char p) * FNV_PRIME) ps"

definition fnv_hash :: "string \<Rightarrow> 64 word" where
  "fnv_hash x = fnv_hash_loop FNV_OFFSET x"

text \<open>
  \<^verbatim>\<open>fnv_hash\<close> of the standalone benchmark: a \<^verbatim>\<open>while\<close> loop with the constants
  written as literals.
\<close>

fun fnv_hash_sa_loop :: "64 word \<Rightarrow> string \<Rightarrow> 64 word" where
  "fnv_hash_sa_loop hash [] = hash"
| "fnv_hash_sa_loop hash (s # ss) =
     fnv_hash_sa_loop ((hash XOR of_char s) * 1099511628211) ss"

definition fnv_hash_sa :: "string \<Rightarrow> 64 word" where
  "fnv_hash_sa s = fnv_hash_sa_loop 14695981039346656037 s"

text \<open>
  The reference definition the specification gives for FNV-1a, in its own words: start
  from the offset basis, and for each byte xor it in and multiply by the prime.
\<close>

definition fnv1a_reference :: "string \<Rightarrow> 64 word" where
  "fnv1a_reference bs =
     foldl (\<lambda>hash byte. (hash XOR of_char byte) * 0x100000001b3) 0xcbf29ce484222325 bs"

definition TABLE_SIZE :: nat where
  "TABLE_SIZE = 1024"

section \<open>The server's table (src/server/benchcached.c)\<close>

text \<open>
  \<^verbatim>\<open>typedef struct { kv_entry entries[TABLE_SIZE]; } hashmap;\<close> The array is a list;
  every index the code uses is masked with \<^verbatim>\<open>TABLE_SIZE - 1\<close>, so it is in range for a
  list of \<open>TABLE_SIZE\<close> slots.
\<close>

record hashmap =
  entries :: "kv_entry list"

definition empty_table :: hashmap where
  "empty_table = \<lparr>entries = replicate TABLE_SIZE zero_entry\<rparr>"

text \<open>\<^verbatim>\<open>hashmap_create\<close>: \<^verbatim>\<open>NULL\<close> when \<^verbatim>\<open>malloc\<close> fails, all slots zeroed otherwise.\<close>

definition hashmap_create :: "bool \<Rightarrow> hashmap option" where
  "hashmap_create ok = (if ok then Some empty_table else None)"

text \<open>
  \<^verbatim>\<open>free(p)\<close> leaves the pointer variable as it is; a freed buffer makes it dangling,
  \<^verbatim>\<open>free(NULL)\<close> does nothing.
\<close>

fun freed :: "cptr \<Rightarrow> cptr" where
  "freed Null = Null"
| "freed (Ptr s) = Dangling"
| "freed Dangling = Dangling"

text \<open>
  \<^verbatim>\<open>hashmap_set\<close> of the server. The loop counter \<open>i\<close> is an argument; \<open>kok\<close> and \<open>vok\<close>
  say whether \<^verbatim>\<open>strdup(key)\<close> and \<^verbatim>\<open>strdup(val)\<close> succeed. The function is \<^verbatim>\<open>void\<close>:
  the result is the table it leaves.
\<close>

function hashmap_set_loop ::
  "hashmap \<Rightarrow> string \<Rightarrow> string \<Rightarrow> bool \<Rightarrow> bool \<Rightarrow> 64 word \<Rightarrow> nat \<Rightarrow> fault + hashmap" where
  "hashmap_set_loop hm k v kok vok idx i =
     (if i < TABLE_SIZE then
        (let probe = unat ((idx + of_nat i) AND of_nat (TABLE_SIZE - 1));
             e = entries hm ! probe
         in if used e = 0 \<or> deleted e \<noteq> 0 then
              Inr (hm\<lparr>entries := (entries hm)
                     [probe := e\<lparr>key := strdup kok k, val := strdup vok v, used := 1, deleted := 0\<rparr>]\<rparr>)
            else (case streq (key e) k of
                    Inl f \<Rightarrow> Inl f
                  | Inr True \<Rightarrow>
                      Inr (hm\<lparr>entries := (entries hm)[probe := e\<lparr>val := strdup vok v\<rparr>]\<rparr>)
                  | Inr False \<Rightarrow> hashmap_set_loop hm k v kok vok idx (i + 1)))
      else Inr hm)"
  by pat_completeness auto
termination
  by (relation "measure (\<lambda>(hm, k, v, kok, vok, idx, i). TABLE_SIZE - i)") auto

definition hashmap_set :: "hashmap \<Rightarrow> string \<Rightarrow> string \<Rightarrow> bool \<Rightarrow> bool \<Rightarrow> fault + hashmap" where
  "hashmap_set hm k v kok vok =
     hashmap_set_loop hm k v kok vok (fnv_hash k AND of_nat (TABLE_SIZE - 1)) 0"

text \<open>\<^verbatim>\<open>hashmap_get\<close> of the server: the pointer it returns, \<^verbatim>\<open>NULL\<close> for not found.\<close>

function hashmap_get_loop :: "hashmap \<Rightarrow> string \<Rightarrow> 64 word \<Rightarrow> nat \<Rightarrow> fault + cptr" where
  "hashmap_get_loop hm k idx i =
     (if i < TABLE_SIZE then
        (let probe = unat ((idx + of_nat i) AND of_nat (TABLE_SIZE - 1));
             e = entries hm ! probe
         in if used e = 0 then Inr Null
            else if deleted e \<noteq> 0 then hashmap_get_loop hm k idx (i + 1)
            else (case streq (key e) k of
                    Inl f \<Rightarrow> Inl f
                  | Inr True \<Rightarrow> Inr (val e)
                  | Inr False \<Rightarrow> hashmap_get_loop hm k idx (i + 1)))
      else Inr Null)"
  by pat_completeness auto
termination
  by (relation "measure (\<lambda>(hm, k, idx, i). TABLE_SIZE - i)") auto

definition hashmap_get :: "hashmap \<Rightarrow> string \<Rightarrow> fault + cptr" where
  "hashmap_get hm k = hashmap_get_loop hm k (fnv_hash k AND of_nat (TABLE_SIZE - 1)) 0"

text \<open>
  \<^verbatim>\<open>hashmap_delete\<close> of the server. It compares the key of every used slot, deleted or
  not, and leaves the two freed pointers in the slot.
\<close>

function hashmap_delete_loop :: "hashmap \<Rightarrow> string \<Rightarrow> 64 word \<Rightarrow> nat \<Rightarrow> fault + hashmap" where
  "hashmap_delete_loop hm k idx i =
     (if i < TABLE_SIZE then
        (let probe = unat ((idx + of_nat i) AND of_nat (TABLE_SIZE - 1));
             e = entries hm ! probe
         in if used e = 0 then Inr hm
            else (case streq (key e) k of
                    Inl f \<Rightarrow> Inl f
                  | Inr True \<Rightarrow>
                      Inr (hm\<lparr>entries := (entries hm)
                             [probe := e\<lparr>key := freed (key e), val := freed (val e), deleted := 1\<rparr>]\<rparr>)
                  | Inr False \<Rightarrow> hashmap_delete_loop hm k idx (i + 1)))
      else Inr hm)"
  by pat_completeness auto
termination
  by (relation "measure (\<lambda>(hm, k, idx, i). TABLE_SIZE - i)") auto

definition hashmap_delete :: "hashmap \<Rightarrow> string \<Rightarrow> fault + hashmap" where
  "hashmap_delete hm k = hashmap_delete_loop hm k (fnv_hash k AND of_nat (TABLE_SIZE - 1)) 0"

section \<open>The standalone table (the benchmark with the table built in)\<close>

record hashmap_sa =
  entries_sa :: "kv_entry list"
  cap :: "64 word"

text \<open>
  \<^verbatim>\<open>next_pow2\<close>: the shift wraps to 0 above \<open>2^63\<close>, after which the loop never ends;
  not returning is the value \<open>None\<close>.
\<close>

partial_function (option) next_pow2_loop :: "64 word \<Rightarrow> 64 word \<Rightarrow> 64 word option" where
  "next_pow2_loop p x = (if p < x then next_pow2_loop (push_bit 1 p) x else Some p)"

definition next_pow2 :: "64 word \<Rightarrow> 64 word option" where
  "next_pow2 x = next_pow2_loop 1 x"

text \<open>
  \<^verbatim>\<open>hashmap_create\<close> of the standalone table; the flags say whether \<^verbatim>\<open>malloc\<close> and
  \<^verbatim>\<open>calloc\<close> succeed. The outer \<open>None\<close> is not returning, the inner one is \<^verbatim>\<open>NULL\<close>.
\<close>

definition hashmap_create_sa :: "bool \<Rightarrow> bool \<Rightarrow> 64 word \<Rightarrow> hashmap_sa option option" where
  "hashmap_create_sa mok cok expected_items =
     (case next_pow2 (expected_items * 2 + 1) of
        None \<Rightarrow> None
      | Some c \<Rightarrow>
          Some (if \<not> mok then None
                else if \<not> cok then None
                else Some \<lparr>entries_sa = replicate (unat c) zero_entry, cap = c\<rparr>))"

text \<open>
  \<^verbatim>\<open>hashmap_set\<close> of the standalone table, with its result (0 or -1). \<open>first_tomb\<close> is
  the \<^verbatim>\<open>ssize_t\<close> of the source, -1 while no tombstone has been seen.
\<close>

function hashmap_set_sa_loop ::
  "hashmap_sa \<Rightarrow> string \<Rightarrow> string \<Rightarrow> bool \<Rightarrow> bool \<Rightarrow> 64 word \<Rightarrow> int \<Rightarrow> nat
     \<Rightarrow> fault + (hashmap_sa \<times> int)" where
  "hashmap_set_sa_loop hm k v kok vok idx first_tomb i =
     (if i < unat (cap hm) then
        (let probe = unat ((idx + of_nat i) AND (cap hm - 1));
             e = entries_sa hm ! probe
         in if used e = 0 then
              (let d = (if first_tomb \<ge> 0 then nat first_tomb else probe);
                   dst = (entries_sa hm ! d)\<lparr>key := strdup kok k, val := strdup vok v\<rparr>
               in if key dst = Null \<or> val dst = Null then
                    Inr (hm\<lparr>entries_sa := (entries_sa hm)
                           [d := dst\<lparr>key := Null, val := Null, used := 0, deleted := 0\<rparr>]\<rparr>, -1)
                  else
                    Inr (hm\<lparr>entries_sa := (entries_sa hm)[d := dst\<lparr>used := 1, deleted := 0\<rparr>]\<rparr>, 0))
            else if deleted e \<noteq> 0 then
              hashmap_set_sa_loop hm k v kok vok idx
                (if first_tomb < 0 then int probe else first_tomb) (i + 1)
            else (case streq (key e) k of
                    Inl f \<Rightarrow> Inl f
                  | Inr True \<Rightarrow>
                      (let new_val = strdup vok v
                       in if new_val = Null then Inr (hm, -1)
                          else Inr (hm\<lparr>entries_sa := (entries_sa hm)[probe := e\<lparr>val := new_val\<rparr>]\<rparr>, 0))
                  | Inr False \<Rightarrow> hashmap_set_sa_loop hm k v kok vok idx first_tomb (i + 1)))
      else Inr (hm, -1))"
  by pat_completeness auto
termination
  by (relation "measure (\<lambda>(hm, k, v, kok, vok, idx, first_tomb, i). unat (cap hm) - i)") auto

definition hashmap_set_sa ::
  "hashmap_sa \<Rightarrow> string \<Rightarrow> string \<Rightarrow> bool \<Rightarrow> bool \<Rightarrow> fault + (hashmap_sa \<times> int)" where
  "hashmap_set_sa hm k v kok vok =
     hashmap_set_sa_loop hm k v kok vok (fnv_hash_sa k AND (cap hm - 1)) (-1) 0"

function hashmap_get_sa_loop :: "hashmap_sa \<Rightarrow> string \<Rightarrow> 64 word \<Rightarrow> nat \<Rightarrow> fault + cptr" where
  "hashmap_get_sa_loop hm k idx i =
     (if i < unat (cap hm) then
        (let probe = unat ((idx + of_nat i) AND (cap hm - 1));
             e = entries_sa hm ! probe
         in if used e = 0 then Inr Null
            else if deleted e \<noteq> 0 then hashmap_get_sa_loop hm k idx (i + 1)
            else (case streq (key e) k of
                    Inl f \<Rightarrow> Inl f
                  | Inr True \<Rightarrow> Inr (val e)
                  | Inr False \<Rightarrow> hashmap_get_sa_loop hm k idx (i + 1)))
      else Inr Null)"
  by pat_completeness auto
termination
  by (relation "measure (\<lambda>(hm, k, idx, i). unat (cap hm) - i)") auto

definition hashmap_get_sa :: "hashmap_sa \<Rightarrow> string \<Rightarrow> fault + cptr" where
  "hashmap_get_sa hm k = hashmap_get_sa_loop hm k (fnv_hash_sa k AND (cap hm - 1)) 0"

function hashmap_delete_sa_loop ::
  "hashmap_sa \<Rightarrow> string \<Rightarrow> 64 word \<Rightarrow> nat \<Rightarrow> fault + hashmap_sa" where
  "hashmap_delete_sa_loop hm k idx i =
     (if i < unat (cap hm) then
        (let probe = unat ((idx + of_nat i) AND (cap hm - 1));
             e = entries_sa hm ! probe
         in if used e = 0 then Inr hm
            else if deleted e \<noteq> 0 then hashmap_delete_sa_loop hm k idx (i + 1)
            else (case streq (key e) k of
                    Inl f \<Rightarrow> Inl f
                  | Inr True \<Rightarrow>
                      Inr (hm\<lparr>entries_sa := (entries_sa hm)
                             [probe := e\<lparr>key := Null, val := Null, deleted := 1\<rparr>]\<rparr>)
                  | Inr False \<Rightarrow> hashmap_delete_sa_loop hm k idx (i + 1)))
      else Inr hm)"
  by pat_completeness auto
termination
  by (relation "measure (\<lambda>(hm, k, idx, i). unat (cap hm) - i)") auto

definition hashmap_delete_sa :: "hashmap_sa \<Rightarrow> string \<Rightarrow> fault + hashmap_sa" where
  "hashmap_delete_sa hm k = hashmap_delete_sa_loop hm k (fnv_hash_sa k AND (cap hm - 1)) 0"

section \<open>The request handler of the server\<close>

text \<open>
  A connection as \<^verbatim>\<open>handle_pkt\<close> sees it: the bytes the peer sends that have not been
  read yet, whether the peer closes its end after them, and the bytes written back.
  \<^verbatim>\<open>read\<close> returns the bytes that are there, up to the count asked for; with nothing
  left it returns 0 when the peer has closed and otherwise never returns (\<open>Blocked\<close>).
  A \<^verbatim>\<open>read\<close> interrupted by a signal is retried by the source and is not visible here.
  A \<^verbatim>\<open>read\<close> into a \<^verbatim>\<open>NULL\<close> buffer fails with \<^verbatim>\<open>EFAULT\<close> when there are bytes to
  copy, and the source then calls \<^verbatim>\<open>exit(1)\<close>.
\<close>

record conn =
  pending :: string
  peer_closed :: bool
  written :: string

text \<open>
  The first loop: one byte at a time into \<open>buf\<close>, at most 8, up to a colon. The result
  is \<open>None\<close> where the source returns at once (peer closed), otherwise the bytes
  \<open>buf[0..off)\<close>.
\<close>

function read_length :: "conn \<Rightarrow> string \<Rightarrow> nat \<Rightarrow> fault + (conn \<times> string option)" where
  "read_length c buf off =
     (if off < 8 then
        (case pending c of
           [] \<Rightarrow> if peer_closed c then Inr (c, None) else Inl Blocked
         | b # bs \<Rightarrow>
             if b = CHR '':'' then Inr (c\<lparr>pending := bs\<rparr>, Some buf)
             else read_length (c\<lparr>pending := bs\<rparr>) (buf @ [b]) (off + 1))
      else Inr (c, Some buf))"
  by pat_completeness auto
termination
  by (relation "measure (\<lambda>(c, buf, off). 8 - off)") auto

text \<open>The second loop: up to \<open>len\<close> bytes into \<open>msg\<close>, fewer when the peer closes early.\<close>

function read_body :: "conn \<Rightarrow> string \<Rightarrow> nat \<Rightarrow> nat \<Rightarrow> fault + (conn \<times> string)" where
  "read_body c msg off len =
     (if off < len then
        (if pending c = [] then
           (if peer_closed c then Inr (c, msg) else Inl Blocked)
         else
           (let r = min (len - off) (length (pending c))
            in read_body (c\<lparr>pending := drop r (pending c)\<rparr>) (msg @ take r (pending c))
                 (off + r) len))
      else Inr (c, msg))"
  by pat_completeness auto
termination
proof (relation "measure (\<lambda>(c, msg, off, len). len - off)")
  fix c :: conn and msg :: string and off len r :: nat
  assume a: "off < len" "pending c \<noteq> []" and r: "r = min (len - off) (length (pending c))"
  from a have "0 < length (pending c)" by simp
  with a r have "0 < r" by simp
  with a show "((c\<lparr>pending := drop r (pending c)\<rparr>, msg @ take r (pending c), off + r, len),
                c, msg, off, len) \<in> measure (\<lambda>(c, msg, off, len). len - off)"
    by simp
qed simp

text \<open>The bytes of a buffer read as a C string: those before the first NUL.\<close>

definition cstring :: "string \<Rightarrow> string" where
  "cstring bs = takeWhile (\<lambda>b. b \<noteq> CHR 0x00) bs"

text \<open>
  \<^verbatim>\<open>atol\<close> of the C library: white space, an optional sign, then decimal digits up to
  the first other byte. The buffer holds at most 8 bytes, so the value fits a \<^verbatim>\<open>long\<close>.
\<close>

definition isspace :: "char \<Rightarrow> bool" where
  "isspace b = (b \<in> {CHR '' '', CHR 0x09, CHR 0x0A, CHR 0x0B, CHR 0x0C, CHR 0x0D})"

definition isdigit :: "char \<Rightarrow> bool" where
  "isdigit b = ((48::nat) \<le> of_char b \<and> (of_char b :: nat) \<le> 57)"

fun digits_value :: "int \<Rightarrow> string \<Rightarrow> int" where
  "digits_value acc [] = acc"
| "digits_value acc (b # bs) =
     (if isdigit b then digits_value (acc * 10 + (of_char b - 48)) bs else acc)"

definition atol :: "string \<Rightarrow> int" where
  "atol s =
     (case dropWhile isspace s of
        [] \<Rightarrow> 0
      | b # bs \<Rightarrow>
          if b = CHR ''-'' then - digits_value 0 bs
          else if b = CHR ''+'' then digits_value 0 bs
          else digits_value 0 (b # bs))"

text \<open>
  \<^verbatim>\<open>strtok(s, ":")\<close> of the C library: skip the leading colons; with nothing left the
  result is \<^verbatim>\<open>NULL\<close> (\<open>None\<close>); otherwise the token runs to the next colon or to the
  end, and the scan resumes after that colon on the next call with \<^verbatim>\<open>NULL\<close>.
\<close>

definition strtok :: "string \<Rightarrow> (string \<times> string) option" where
  "strtok s =
     (let s1 = dropWhile (\<lambda>b. b = CHR '':'') s
      in if s1 = [] then None
         else Some (takeWhile (\<lambda>b. b \<noteq> CHR '':'') s1,
                    drop 1 (dropWhile (\<lambda>b. b \<noteq> CHR '':'') s1)))"

text \<open>
  The dispatch of \<^verbatim>\<open>handle_pkt\<close> (from the first \<^verbatim>\<open>strtok\<close> to the end of the
  \<^verbatim>\<open>if\<close> chain): the reply pointer and the table it leaves. \<^verbatim>\<open>strcmp(cmd, "get")\<close>
  reads through \<open>cmd\<close> without a test.
\<close>

definition handle_pkt_dispatch ::
  "bool \<Rightarrow> bool \<Rightarrow> string \<Rightarrow> hashmap \<Rightarrow> fault + (cptr \<times> hashmap)" where
  "handle_pkt_dispatch kok vok msg hm =
     (case strtok msg of
        None \<Rightarrow> Inl NullDeref
      | Some (cmd, r1) \<Rightarrow>
          if cmd = ''get'' then
            (case strtok r1 of
               None \<Rightarrow> Inr (Null, hm)
             | Some (k, r2) \<Rightarrow>
                 (case hashmap_get hm k of Inl f \<Rightarrow> Inl f | Inr reply \<Rightarrow> Inr (reply, hm)))
          else if cmd = ''set'' then
            (case strtok r1 of
               None \<Rightarrow> Inr (Null, hm)
             | Some (k, r2) \<Rightarrow>
                 (case strtok r2 of
                    None \<Rightarrow> Inr (Null, hm)
                  | Some (v, r3) \<Rightarrow>
                      (case hashmap_set hm k v kok vok of
                         Inl f \<Rightarrow> Inl f
                       | Inr hm' \<Rightarrow> Inr (Null, hm'))))
          else if cmd = ''del'' then
            (case strtok r1 of
               None \<Rightarrow> Inr (Null, hm)
             | Some (k, r2) \<Rightarrow>
                 (case hashmap_delete hm k of Inl f \<Rightarrow> Inl f | Inr hm' \<Rightarrow> Inr (Null, hm')))
          else Inr (Null, hm))"

text \<open>
  \<^verbatim>\<open>malloc\<close> of the body buffer. A request of more than \<^verbatim>\<open>PTRDIFF_MAX\<close> bytes cannot be
  met and gives \<^verbatim>\<open>NULL\<close>; the length header has at most 8 bytes, so these are the
  requests that come from a negative length. A request the header can ask for with a
  length that is not negative (at most 100000000 bytes) is taken to succeed.
\<close>

definition malloc_fails :: "nat \<Rightarrow> bool" where
  "malloc_fails sz = (2 ^ 63 \<le> sz)"

text \<open>
  \<^verbatim>\<open>handle_pkt\<close>. The length is the \<^verbatim>\<open>long\<close> of \<^verbatim>\<open>atol\<close> converted to \<^verbatim>\<open>size_t\<close>;
  the buffer has \<open>len + 1\<close> bytes modulo \<open>2^64\<close>. A length of \<open>2^64 - 1\<close> gives a buffer
  of no bytes, with no room for what is read nor for the terminator. With a \<^verbatim>\<open>NULL\<close>
  buffer the second loop calls \<^verbatim>\<open>read\<close> on it: with bytes to copy the \<^verbatim>\<open>read\<close> fails
  and the process exits; at the end of the stream it returns 0 and the terminator is
  written through \<^verbatim>\<open>NULL\<close>. The reply is written when the pointer is not \<^verbatim>\<open>NULL\<close>.
\<close>

definition handle_pkt ::
  "bool \<Rightarrow> bool \<Rightarrow> conn \<Rightarrow> hashmap \<Rightarrow> fault + (conn \<times> hashmap)" where
  "handle_pkt kok vok c hm =
     (case read_length c [] 0 of
        Inl f \<Rightarrow> Inl f
      | Inr (c1, None) \<Rightarrow> Inr (c1, hm)
      | Inr (c1, Some buf) \<Rightarrow>
          (let len = nat (atol (cstring buf) mod 2 ^ 64);
               sz = (len + 1) mod 2 ^ 64
           in if sz = 0 then
                (if pending c1 = [] \<and> \<not> peer_closed c1 then Inl Blocked
                 else Inl BufferOverflow)
              else if malloc_fails sz then
                (if pending c1 \<noteq> [] then Inl Exited
                 else if peer_closed c1 then Inl NullDeref
                 else Inl Blocked)
              else
                (case read_body c1 [] 0 len of
                   Inl f \<Rightarrow> Inl f
                 | Inr (c2, body) \<Rightarrow>
                     (case handle_pkt_dispatch kok vok (cstring body) hm of
                        Inl f \<Rightarrow> Inl f
                      | Inr (reply, hm') \<Rightarrow>
                          (case reply of
                             Null \<Rightarrow> Inr (c2, hm')
                           | Ptr s \<Rightarrow> Inr (c2\<lparr>written := written c2 @ s\<rparr>, hm')
                           | Dangling \<Rightarrow> Inl UseAfterFree)))))"

text \<open>A request as the peer sends it: the bytes, then the peer closes.\<close>

definition request :: "string \<Rightarrow> conn" where
  "request bs = \<lparr>pending = bs, peer_closed = True, written = []\<rparr>"

section \<open>Runs of operations\<close>

text \<open>
  A call of the table from outside, with the outcome of the allocations it makes, and
  the run of a list of calls; a fault ends the run.
\<close>

datatype op = Set string string bool bool | Del string

fun run :: "hashmap \<Rightarrow> op list \<Rightarrow> fault + hashmap" where
  "run hm [] = Inr hm"
| "run hm (Set k v kok vok # ops) =
     (case hashmap_set hm k v kok vok of Inl f \<Rightarrow> Inl f | Inr hm' \<Rightarrow> run hm' ops)"
| "run hm (Del k # ops) =
     (case hashmap_delete hm k of Inl f \<Rightarrow> Inl f | Inr hm' \<Rightarrow> run hm' ops)"

fun run_sa :: "hashmap_sa \<Rightarrow> op list \<Rightarrow> fault + hashmap_sa" where
  "run_sa hm [] = Inr hm"
| "run_sa hm (Set k v kok vok # ops) =
     (case hashmap_set_sa hm k v kok vok of Inl f \<Rightarrow> Inl f | Inr (hm', r) \<Rightarrow> run_sa hm' ops)"
| "run_sa hm (Del k # ops) =
     (case hashmap_delete_sa hm k of Inl f \<Rightarrow> Inl f | Inr hm' \<Rightarrow> run_sa hm' ops)"

section \<open>The lookup as the specification words it\<close>

text \<open>
  The probe sequence of the specification: \<open>i0, i0 + 1, ..., i0 + capacity - 1\<close>, each
  modulo the capacity.
\<close>

definition probe_sequence :: "nat \<Rightarrow> nat \<Rightarrow> nat list" where
  "probe_sequence c i0 = map (\<lambda>i. (i0 + i) mod c) [0..<c]"

text \<open>
  The specification's lookup over the slots met along the probe sequence: stop with
  not-found at the first Empty slot, skip a Tombstone, return the value of the first
  Occupied slot with the key, and not-found when the sequence is exhausted.
\<close>

fun first_match :: "string \<Rightarrow> kv_entry list \<Rightarrow> cptr" where
  "first_match k [] = Null"
| "first_match k (e # es) =
     (case state_of e of
        Empty \<Rightarrow> Null
      | Tombstone \<Rightarrow> first_match k es
      | Occupied \<Rightarrow> if key e = Ptr k then val e else first_match k es)"

definition get_spec :: "kv_entry list \<Rightarrow> nat \<Rightarrow> 64 word \<Rightarrow> string \<Rightarrow> cptr" where
  "get_spec slots c h k =
     first_match k (map (\<lambda>j. slots ! j) (probe_sequence c (unat h mod c)))"

text \<open>
  The ownership invariant of the data model, as far as a lookup depends on it: an
  Occupied slot among the first \<open>c\<close> has a live key buffer.
\<close>

definition owned :: "kv_entry list \<Rightarrow> nat \<Rightarrow> bool" where
  "owned slots c = (\<forall>j < c. state_of (slots ! j) = Occupied \<longrightarrow> (\<exists>s. key (slots ! j) = Ptr s))"

text \<open>
  A table full of other keys, seen from key \<open>k\<close>: every slot of its probe sequence is
  Occupied by a live key different from \<open>k\<close>.
\<close>

definition full_of_others :: "kv_entry list \<Rightarrow> nat \<Rightarrow> 64 word \<Rightarrow> string \<Rightarrow> bool" where
  "full_of_others slots c h k =
     (\<forall>j \<in> set (probe_sequence c (unat h mod c)).
        state_of (slots ! j) = Occupied \<and> (\<exists>s. key (slots ! j) = Ptr s \<and> s \<noteq> k))"

section \<open>Example tables\<close>

text \<open>
  A server table and a standalone table of capacity 4 in which every slot is Occupied,
  by a key of its own: \<open>x\<close> in slot 775, where it hashes to in the server, and a run
  of \<open>a\<close>s, as long as the slot number plus one, elsewhere.
\<close>

definition full_entry :: "nat \<Rightarrow> kv_entry" where
  "full_entry j =
     \<lparr>key = Ptr (if j = 775 then ''x'' else replicate (Suc j) CHR ''a''),
      val = Ptr ''y'', used = 1, deleted = 0\<rparr>"

definition full_table :: hashmap where
  "full_table = \<lparr>entries = map full_entry [0..<TABLE_SIZE]\<rparr>"

definition full_table_sa :: hashmap_sa where
  "full_table_sa = \<lparr>entries_sa = map full_entry [0..<4], cap = 4\<rparr>"

text \<open>An Occupied slot holding a key and a value.\<close>

definition occ :: "string \<Rightarrow> string \<Rightarrow> kv_entry" where
  "occ k v = \<lparr>key = Ptr k, val = Ptr v, used = 1, deleted = 0\<rparr>"

text \<open>What a key or a value of the protocol can be: not empty, no colon.\<close>

definition token :: "string \<Rightarrow> bool" where
  "token t = (t \<noteq> [] \<and> CHR '':'' \<notin> set t)"

section \<open>Slots as a walk along the probe sequence sees them\<close>

text \<open>
  A slot the lookup of \<open>k\<close> passes over: used, and either deleted or holding another
  key. A slot held by another key, one that holds \<open>k\<close>, and the effect of an operation
  on another key as far as \<open>k\<close> is concerned: nothing, or one slot that did not hold
  \<open>k\<close> replaced by one the lookup of \<open>k\<close> passes over.
\<close>

definition passed :: "string \<Rightarrow> kv_entry \<Rightarrow> bool" where
  "passed k e = (used e \<noteq> 0 \<and> (deleted e \<noteq> 0 \<or> (\<exists>s. key e = Ptr s \<and> s \<noteq> k)))"

definition other :: "string \<Rightarrow> kv_entry \<Rightarrow> bool" where
  "other k e = (used e \<noteq> 0 \<and> deleted e = 0 \<and> (\<exists>s. key e = Ptr s \<and> s \<noteq> k))"

definition holds :: "string \<Rightarrow> kv_entry \<Rightarrow> bool" where
  "holds k e = (used e \<noteq> 0 \<and> deleted e = 0 \<and> key e = Ptr k)"

definition touches :: "string \<Rightarrow> kv_entry list \<Rightarrow> kv_entry list \<Rightarrow> bool" where
  "touches k es es' =
     (es' = es \<or> (\<exists>d x. d < length es \<and> es' = es[d := x] \<and> \<not> holds k (es ! d) \<and> passed k x))"

text \<open>
  An operation that leaves key \<open>k\<close> alone: on another key, and, for a set, with both
  copies succeeding.
\<close>

fun quiet :: "string \<Rightarrow> op \<Rightarrow> bool" where
  "quiet k (Set k' v' kok vok) = (k' \<noteq> k \<and> kok \<and> vok)"
| "quiet k (Del k') = (k' \<noteq> k)"

section \<open>The invariant of the standalone table\<close>

text \<open>
  The slot that step \<open>p\<close> of the probe sequence of key \<open>s\<close> reaches in a table of
  capacity \<open>2 ^ n\<close>.
\<close>

definition home :: "nat \<Rightarrow> string \<Rightarrow> nat \<Rightarrow> nat" where
  "home n s p = (unat (fnv_hash_sa s) mod 2 ^ n + p) mod 2 ^ n"

text \<open>
  What the data model asks of the slots: an Occupied slot has a live key; a key that is
  held is held on its own probe sequence with no unused slot before it, so that a
  lookup reaches it; and no key is held twice.
\<close>

definition sound :: "nat \<Rightarrow> kv_entry list \<Rightarrow> bool" where
  "sound n es =
     (length es = 2 ^ n \<and>
      (\<forall>d < 2 ^ n. used (es ! d) \<noteq> 0 \<and> deleted (es ! d) = 0 \<longrightarrow> (\<exists>s. key (es ! d) = Ptr s)) \<and>
      (\<forall>d < 2 ^ n. \<forall>s. holds s (es ! d) \<longrightarrow>
         (\<exists>p < 2 ^ n. home n s p = d \<and> (\<forall>j < p. used (es ! home n s j) \<noteq> 0))) \<and>
      (\<forall>d < 2 ^ n. \<forall>d' < 2 ^ n. \<forall>s. holds s (es ! d) \<and> holds s (es ! d') \<longrightarrow> d = d'))"

definition sound_sa :: "nat \<Rightarrow> hashmap_sa \<Rightarrow> bool" where
  "sound_sa n hm = (n < 64 \<and> cap hm = 2 ^ n \<and> sound n (entries_sa hm))"

text \<open>An operation whose copies, if it makes any, succeed.\<close>

fun copies_ok :: "op \<Rightarrow> bool" where
  "copies_ok (Set k v kok vok) = (kok \<and> vok)"
| "copies_ok (Del k) = True"

text \<open>
  The start of the probe sequence as the specification has it: the FNV-1a hash of the
  key modulo the capacity.
\<close>

definition start_index :: "nat \<Rightarrow> string \<Rightarrow> nat" where
  "start_index c k = unat (fnv1a_reference k) mod c"

text \<open>An operation whose copy of the key, if it makes one, succeeds.\<close>

fun key_copy_ok :: "op \<Rightarrow> bool" where
  "key_copy_ok (Set k v kok vok) = kok"
| "key_copy_ok (Del k) = True"

section \<open>Properties of the hash function\<close>

lemma fnv_hash_loop_foldl:
  "fnv_hash_loop h x = foldl (\<lambda>hash byte. (hash XOR of_char byte) * 0x100000001b3) h x"
  by (induction x arbitrary: h) (simp_all add: FNV_PRIME_def)

lemma fnv_hash_sa_loop_foldl:
  "fnv_hash_sa_loop h x = foldl (\<lambda>hash byte. (hash XOR of_char byte) * 0x100000001b3) h x"
  by (induction x arbitrary: h) simp_all

lemma fnv_hash_sa_eq: "fnv_hash_sa x = fnv_hash x"
  by (simp add: fnv_hash_sa_def fnv_hash_def FNV_OFFSET_def fnv_hash_loop_foldl
      fnv_hash_sa_loop_foldl)

lemma word_and_pow2_minus_1:
  fixes h :: "64 word"
  shows "h AND (2 ^ n - 1) = take_bit n h"
  by (simp only: take_bit_eq_mask mask_eq_exp_minus_1)

lemma unat_and_pow2_minus_1:
  fixes h :: "64 word"
  shows "unat (h AND (2 ^ n - 1)) = unat h mod 2 ^ n"
  by (simp only: word_and_pow2_minus_1 unsigned_take_bit_eq) (simp only: take_bit_eq_mod)

lemma unat_pow2_64: "n < 64 \<Longrightarrow> unat ((2::64 word) ^ n) = 2 ^ n"
proof -
  assume n: "n < 64"
  have "(2::64 word) ^ n = of_nat (2 ^ n)" by simp
  then have "unat ((2::64 word) ^ n) = (2 ^ n) mod 2 ^ 64"
    by (simp only: unat_of_nat) simp
  moreover have "(2::nat) ^ n < 2 ^ 64"
    using n by (simp only: power_strict_increasing_iff)
  ultimately show ?thesis by simp
qed

section \<open>The probe walks, one step at a time\<close>

declare hashmap_set_loop.simps [simp del]
declare hashmap_get_loop.simps [simp del]
declare hashmap_delete_loop.simps [simp del]
declare hashmap_set_sa_loop.simps [simp del]
declare hashmap_get_sa_loop.simps [simp del]
declare hashmap_delete_sa_loop.simps [simp del]

text \<open>The slot the \<open>i\<close>-th iteration looks at, as a number.\<close>

lemma probe_index:
  fixes h :: "64 word"
  assumes "n < 64"
  shows "unat (((h AND (2 ^ n - 1)) + of_nat i) AND (2 ^ n - 1)) = (unat h mod 2 ^ n + i) mod 2 ^ n"
proof -
  have d: "(2::nat) ^ n dvd 2 ^ 64"
    by (rule le_imp_power_dvd) (use assms in simp)
  have "unat (((h AND (2 ^ n - 1)) + of_nat i) AND (2 ^ n - 1))
        = unat ((h AND (2 ^ n - 1)) + of_nat i) mod 2 ^ n"
    by (rule unat_and_pow2_minus_1)
  also have "unat ((h AND (2 ^ n - 1)) + (of_nat i :: 64 word))
        = (unat (h AND (2 ^ n - 1)) + unat (of_nat i :: 64 word)) mod 2 ^ 64"
    by (simp only: unat_word_ariths) simp
  also have "\<dots> mod 2 ^ n = (unat (h AND (2 ^ n - 1)) + unat (of_nat i :: 64 word)) mod 2 ^ n"
    using d by (rule mod_mod_cancel)
  also have "\<dots> = (unat h mod 2 ^ n + (i mod 2 ^ 64)) mod 2 ^ n"
    by (simp only: unat_and_pow2_minus_1 unat_of_nat) simp
  also have "\<dots> = (unat h mod 2 ^ n + i) mod 2 ^ n"
    using d by (metis mod_add_right_eq mod_mod_cancel)
  finally show ?thesis .
qed

lemma probe_index_srv:
  "unat (((h AND of_nat (TABLE_SIZE - 1)) + of_nat i) AND of_nat (TABLE_SIZE - 1))
     = (unat (h :: 64 word) mod TABLE_SIZE + i) mod TABLE_SIZE"
proof -
  have m: "(of_nat (TABLE_SIZE - 1) :: 64 word) = 2 ^ 10 - 1"
    by (simp add: TABLE_SIZE_def)
  have t: "TABLE_SIZE = 2 ^ 10"
    by (simp add: TABLE_SIZE_def)
  have "unat (((h AND (2 ^ 10 - 1)) + of_nat i) AND (2 ^ 10 - 1))
          = (unat h mod 2 ^ 10 + i) mod 2 ^ 10"
    by (rule probe_index) simp
  then have "unat (((h AND of_nat (TABLE_SIZE - 1)) + of_nat i) AND of_nat (TABLE_SIZE - 1))
          = (unat h mod 2 ^ 10 + i) mod 2 ^ 10"
    by (simp only: m)
  then show ?thesis
    by (simp only: t)
qed

lemma probe_sequence_map:
  "map f (probe_sequence c i0) = map (\<lambda>i. f ((i0 + i) mod c)) [0..<c]"
  by (simp add: probe_sequence_def comp_def)

lemma get_sa_loop_step:
  assumes c: "cap hm = 2 ^ n" "n < 64" and lt: "i < 2 ^ n"
  shows "hashmap_get_sa_loop hm k (h AND (cap hm - 1)) i =
     (let e = entries_sa hm ! ((unat h mod 2 ^ n + i) mod 2 ^ n)
      in if used e = 0 then Inr Null
         else if deleted e \<noteq> 0 then hashmap_get_sa_loop hm k (h AND (cap hm - 1)) (i + 1)
         else (case streq (key e) k of
                 Inl f \<Rightarrow> Inl f
               | Inr True \<Rightarrow> Inr (val e)
               | Inr False \<Rightarrow> hashmap_get_sa_loop hm k (h AND (cap hm - 1)) (i + 1)))"
proof -
  have pr: "unat (((h AND (cap hm - 1)) + of_nat i) AND (cap hm - 1))
              = (unat h mod 2 ^ n + i) mod 2 ^ n"
    using c probe_index[of n h i] by simp
  have u: "i < unat (cap hm)"
    using c lt by (simp add: unat_pow2_64)
  show ?thesis
    by (subst hashmap_get_sa_loop.simps) (simp only: pr u if_True Let_def)
qed

lemma get_sa_loop_exit:
  assumes c: "cap hm = 2 ^ n" "n < 64"
  shows "hashmap_get_sa_loop hm k idx (2 ^ n) = Inr Null"
proof -
  have u: "\<not> 2 ^ n < unat (cap hm)"
    using c by (simp add: unat_pow2_64)
  show ?thesis
    by (subst hashmap_get_sa_loop.simps) (simp only: u if_False)
qed

lemma get_loop_step:
  assumes lt: "i < TABLE_SIZE"
  shows "hashmap_get_loop hm k (h AND of_nat (TABLE_SIZE - 1)) i =
     (let e = entries hm ! ((unat h mod TABLE_SIZE + i) mod TABLE_SIZE)
      in if used e = 0 then Inr Null
         else if deleted e \<noteq> 0
           then hashmap_get_loop hm k (h AND of_nat (TABLE_SIZE - 1)) (i + 1)
         else (case streq (key e) k of
                 Inl f \<Rightarrow> Inl f
               | Inr True \<Rightarrow> Inr (val e)
               | Inr False \<Rightarrow> hashmap_get_loop hm k (h AND of_nat (TABLE_SIZE - 1)) (i + 1)))"
  by (subst hashmap_get_loop.simps) (simp only: probe_index_srv lt if_True Let_def)

lemma get_loop_exit: "hashmap_get_loop hm k idx TABLE_SIZE = Inr Null"
  by (subst hashmap_get_loop.simps) simp

section \<open>The lookup refines the specification\<close>

text \<open>
  A walk that takes the steps of the lookup loop returns what \<open>first_match\<close> returns on
  the slots it visits, when the Occupied ones have a live key.
\<close>

lemma get_walk:
  fixes f :: "nat \<Rightarrow> fault + cptr" and e :: "nat \<Rightarrow> kv_entry"
  assumes step: "\<And>i. i < c \<Longrightarrow> f i =
       (if used (e i) = 0 then Inr Null
        else if deleted (e i) \<noteq> 0 then f (i + 1)
        else (case streq (key (e i)) k of
                Inl x \<Rightarrow> Inl x
              | Inr True \<Rightarrow> Inr (val (e i))
              | Inr False \<Rightarrow> f (i + 1)))"
    and exit: "f c = Inr Null"
    and own: "\<And>i. i < c \<Longrightarrow> state_of (e i) = Occupied \<Longrightarrow> \<exists>s. key (e i) = Ptr s"
  shows "i \<le> c \<Longrightarrow> f i = Inr (first_match k (map e [i..<c]))"
proof (induction "c - i" arbitrary: i)
  case 0
  then have "i = c" by simp
  then show ?case using exit by simp
next
  case (Suc m)
  then have lt: "i < c" by simp
  have ih: "f (Suc i) = Inr (first_match k (map e [Suc i..<c]))"
    using Suc.hyps(1)[of "Suc i"] Suc.hyps(2) lt by simp
  have up: "[i..<c] = i # [Suc i..<c]"
    using lt by (simp add: upt_conv_Cons)
  show ?case
  proof (cases "state_of (e i)")
    case Empty
    then have "used (e i) = 0"
      by (simp add: state_of_def split: if_splits)
    then show ?thesis
      by (simp add: step[OF lt] up Empty)
  next
    case Tombstone
    then have "used (e i) \<noteq> 0" "deleted (e i) \<noteq> 0"
      by (simp_all add: state_of_def split: if_splits)
    then show ?thesis
      by (simp add: step[OF lt] up Tombstone ih)
  next
    case Occupied
    then have u: "used (e i) \<noteq> 0" "deleted (e i) = 0"
      by (simp_all add: state_of_def split: if_splits)
    from own[OF lt Occupied] obtain s where s: "key (e i) = Ptr s"
      by blast
    show ?thesis
      using u by (simp add: step[OF lt] up Occupied ih s)
  qed
qed

lemma hashmap_get_sa_spec:
  assumes c: "cap hm = 2 ^ n" "n < 64" and own: "owned (entries_sa hm) (2 ^ n)"
  shows "hashmap_get_sa hm k = Inr (get_spec (entries_sa hm) (2 ^ n) (fnv_hash_sa k) k)"
proof -
  let ?h = "fnv_hash_sa k"
  let ?e = "\<lambda>i. entries_sa hm ! ((unat ?h mod 2 ^ n + i) mod 2 ^ n)"
  have "hashmap_get_sa_loop hm k (?h AND (cap hm - 1)) 0
          = Inr (first_match k (map ?e [0..<2 ^ n]))"
  proof (rule get_walk[where f = "hashmap_get_sa_loop hm k (?h AND (cap hm - 1))" and e = ?e])
    fix i :: nat
    assume "i < 2 ^ n"
    then show "hashmap_get_sa_loop hm k (?h AND (cap hm - 1)) i =
       (if used (?e i) = 0 then Inr Null
        else if deleted (?e i) \<noteq> 0 then hashmap_get_sa_loop hm k (?h AND (cap hm - 1)) (i + 1)
        else (case streq (key (?e i)) k of
                Inl x \<Rightarrow> Inl x
              | Inr True \<Rightarrow> Inr (val (?e i))
              | Inr False \<Rightarrow> hashmap_get_sa_loop hm k (?h AND (cap hm - 1)) (i + 1)))"
      using get_sa_loop_step[OF c, of i k ?h] by (simp only: Let_def)
  next
    show "hashmap_get_sa_loop hm k (?h AND (cap hm - 1)) (2 ^ n) = Inr Null"
      by (rule get_sa_loop_exit[OF c])
  next
    fix i :: nat
    assume "i < 2 ^ n" "state_of (?e i) = Occupied"
    then show "\<exists>s. key (?e i) = Ptr s"
      using own by (simp add: owned_def)
  qed simp
  then show ?thesis
    by (simp add: hashmap_get_sa_def get_spec_def probe_sequence_map)
qed

lemma hashmap_get_spec:
  assumes own: "owned (entries hm) TABLE_SIZE"
  shows "hashmap_get hm k = Inr (get_spec (entries hm) TABLE_SIZE (fnv_hash k) k)"
proof -
  let ?h = "fnv_hash k"
  let ?e = "\<lambda>i. entries hm ! ((unat ?h mod TABLE_SIZE + i) mod TABLE_SIZE)"
  let ?f = "hashmap_get_loop hm k (?h AND of_nat (TABLE_SIZE - 1))"
  have "?f 0 = Inr (first_match k (map ?e [0..<TABLE_SIZE]))"
  proof (rule get_walk[where f = ?f and e = ?e])
    fix i :: nat
    assume "i < TABLE_SIZE"
    then show "?f i =
       (if used (?e i) = 0 then Inr Null
        else if deleted (?e i) \<noteq> 0 then ?f (i + 1)
        else (case streq (key (?e i)) k of
                Inl x \<Rightarrow> Inl x
              | Inr True \<Rightarrow> Inr (val (?e i))
              | Inr False \<Rightarrow> ?f (i + 1)))"
      using get_loop_step[of i hm k ?h] by (simp only: Let_def)
  next
    show "?f TABLE_SIZE = Inr Null"
      by (rule get_loop_exit)
  next
    fix i :: nat
    assume "i < TABLE_SIZE" "state_of (?e i) = Occupied"
    then show "\<exists>s. key (?e i) = Ptr s"
      using own by (simp add: owned_def TABLE_SIZE_def)
  qed simp
  then show ?thesis
    by (simp add: hashmap_get_def get_spec_def probe_sequence_map)
qed

section \<open>Evaluation on concrete tables\<close>

lemmas eval_srv = hashmap_set_def hashmap_get_def hashmap_delete_def
  hashmap_set_loop.simps hashmap_get_loop.simps hashmap_delete_loop.simps
  fnv_hash_def FNV_OFFSET_def FNV_PRIME_def TABLE_SIZE_def
  empty_table_def zero_entry_def strdup_def Let_def

lemmas eval_sa = hashmap_set_sa_def hashmap_get_sa_def hashmap_delete_sa_def
  hashmap_set_sa_loop.simps hashmap_get_sa_loop.simps hashmap_delete_sa_loop.simps
  fnv_hash_sa_def zero_entry_def strdup_def Let_def

lemmas eval_pkt = handle_pkt_def request_def handle_pkt_dispatch_def strtok_def atol_def
  cstring_def isspace_def isdigit_def malloc_fails_def

lemma replicate_4: "replicate 4 x = [x, x, x, x]"
  by (simp add: numeral_eq_Suc)

section \<open>The walks of set and delete, one step at a time\<close>

lemma set_sa_loop_step:
  assumes c: "cap hm = 2 ^ n" "n < 64" and lt: "i < 2 ^ n"
  shows "hashmap_set_sa_loop hm k v kok vok (h AND (cap hm - 1)) first_tomb i =
     (let probe = (unat h mod 2 ^ n + i) mod 2 ^ n;
          e = entries_sa hm ! probe
      in if used e = 0 then
           (let d = (if first_tomb \<ge> 0 then nat first_tomb else probe);
                dst = (entries_sa hm ! d)\<lparr>key := strdup kok k, val := strdup vok v\<rparr>
            in if key dst = Null \<or> val dst = Null then
                 Inr (hm\<lparr>entries_sa := (entries_sa hm)
                        [d := dst\<lparr>key := Null, val := Null, used := 0, deleted := 0\<rparr>]\<rparr>, -1)
               else
                 Inr (hm\<lparr>entries_sa := (entries_sa hm)[d := dst\<lparr>used := 1, deleted := 0\<rparr>]\<rparr>, 0))
         else if deleted e \<noteq> 0 then
           hashmap_set_sa_loop hm k v kok vok (h AND (cap hm - 1))
             (if first_tomb < 0 then int probe else first_tomb) (i + 1)
         else (case streq (key e) k of
                 Inl f \<Rightarrow> Inl f
               | Inr True \<Rightarrow>
                   (let new_val = strdup vok v
                    in if new_val = Null then Inr (hm, -1)
                       else Inr (hm\<lparr>entries_sa := (entries_sa hm)[probe := e\<lparr>val := new_val\<rparr>]\<rparr>, 0))
               | Inr False \<Rightarrow>
                   hashmap_set_sa_loop hm k v kok vok (h AND (cap hm - 1)) first_tomb (i + 1)))"
proof -
  have pr: "unat (((h AND (cap hm - 1)) + of_nat i) AND (cap hm - 1))
              = (unat h mod 2 ^ n + i) mod 2 ^ n"
    using c probe_index[of n h i] by simp
  have u: "i < unat (cap hm)"
    using c lt by (simp add: unat_pow2_64)
  show ?thesis
    by (subst hashmap_set_sa_loop.simps) (simp only: pr u if_True)
qed

lemma set_sa_loop_exit:
  assumes c: "cap hm = 2 ^ n" "n < 64"
  shows "hashmap_set_sa_loop hm k v kok vok idx first_tomb (2 ^ n) = Inr (hm, -1)"
proof -
  have u: "\<not> 2 ^ n < unat (cap hm)"
    using c by (simp add: unat_pow2_64)
  show ?thesis
    by (subst hashmap_set_sa_loop.simps) (simp only: u if_False)
qed

lemma delete_sa_loop_step:
  assumes c: "cap hm = 2 ^ n" "n < 64" and lt: "i < 2 ^ n"
  shows "hashmap_delete_sa_loop hm k (h AND (cap hm - 1)) i =
     (let probe = (unat h mod 2 ^ n + i) mod 2 ^ n;
          e = entries_sa hm ! probe
      in if used e = 0 then Inr hm
         else if deleted e \<noteq> 0 then hashmap_delete_sa_loop hm k (h AND (cap hm - 1)) (i + 1)
         else (case streq (key e) k of
                 Inl f \<Rightarrow> Inl f
               | Inr True \<Rightarrow>
                   Inr (hm\<lparr>entries_sa := (entries_sa hm)
                          [probe := e\<lparr>key := Null, val := Null, deleted := 1\<rparr>]\<rparr>)
               | Inr False \<Rightarrow> hashmap_delete_sa_loop hm k (h AND (cap hm - 1)) (i + 1)))"
proof -
  have pr: "unat (((h AND (cap hm - 1)) + of_nat i) AND (cap hm - 1))
              = (unat h mod 2 ^ n + i) mod 2 ^ n"
    using c probe_index[of n h i] by simp
  have u: "i < unat (cap hm)"
    using c lt by (simp add: unat_pow2_64)
  show ?thesis
    by (subst hashmap_delete_sa_loop.simps) (simp only: pr u if_True)
qed

lemma delete_sa_loop_exit:
  assumes c: "cap hm = 2 ^ n" "n < 64"
  shows "hashmap_delete_sa_loop hm k idx (2 ^ n) = Inr hm"
proof -
  have u: "\<not> 2 ^ n < unat (cap hm)"
    using c by (simp add: unat_pow2_64)
  show ?thesis
    by (subst hashmap_delete_sa_loop.simps) (simp only: u if_False)
qed

lemma set_loop_step:
  assumes lt: "i < TABLE_SIZE"
  shows "hashmap_set_loop hm k v kok vok (h AND of_nat (TABLE_SIZE - 1)) i =
     (let probe = (unat h mod TABLE_SIZE + i) mod TABLE_SIZE;
          e = entries hm ! probe
      in if used e = 0 \<or> deleted e \<noteq> 0 then
           Inr (hm\<lparr>entries := (entries hm)
                  [probe := e\<lparr>key := strdup kok k, val := strdup vok v, used := 1, deleted := 0\<rparr>]\<rparr>)
         else (case streq (key e) k of
                 Inl f \<Rightarrow> Inl f
               | Inr True \<Rightarrow>
                   Inr (hm\<lparr>entries := (entries hm)[probe := e\<lparr>val := strdup vok v\<rparr>]\<rparr>)
               | Inr False \<Rightarrow>
                   hashmap_set_loop hm k v kok vok (h AND of_nat (TABLE_SIZE - 1)) (i + 1)))"
  by (subst hashmap_set_loop.simps) (simp only: probe_index_srv lt if_True)

lemma set_loop_exit: "hashmap_set_loop hm k v kok vok idx TABLE_SIZE = Inr hm"
  by (subst hashmap_set_loop.simps) simp

lemma delete_loop_step:
  assumes lt: "i < TABLE_SIZE"
  shows "hashmap_delete_loop hm k (h AND of_nat (TABLE_SIZE - 1)) i =
     (let probe = (unat h mod TABLE_SIZE + i) mod TABLE_SIZE;
          e = entries hm ! probe
      in if used e = 0 then Inr hm
         else (case streq (key e) k of
                 Inl f \<Rightarrow> Inl f
               | Inr True \<Rightarrow>
                   Inr (hm\<lparr>entries := (entries hm)
                          [probe := e\<lparr>key := freed (key e), val := freed (val e), deleted := 1\<rparr>]\<rparr>)
               | Inr False \<Rightarrow> hashmap_delete_loop hm k (h AND of_nat (TABLE_SIZE - 1)) (i + 1)))"
  by (subst hashmap_delete_loop.simps) (simp only: probe_index_srv lt if_True)

lemma delete_loop_exit: "hashmap_delete_loop hm k idx TABLE_SIZE = Inr hm"
  by (subst hashmap_delete_loop.simps) simp

lemma walk_const:
  fixes f :: "nat \<Rightarrow> 'a"
  assumes "\<And>i. i < c \<Longrightarrow> f i = f (i + 1)"
  shows "i \<le> c \<Longrightarrow> f i = f c"
proof (induction "c - i" arbitrary: i)
  case 0
  then show ?case by simp
next
  case (Suc m)
  then have "i < c" by simp
  with assms have "f i = f (i + 1)" by blast
  also have "\<dots> = f c" using Suc.hyps(1)[of "i + 1"] Suc.hyps(2) by simp
  finally show ?case .
qed

lemma full_of_others_nth:
  "full_of_others slots c h k \<Longrightarrow> i < c \<Longrightarrow>
     state_of (slots ! ((unat h mod c + i) mod c)) = Occupied \<and>
     (\<exists>s. key (slots ! ((unat h mod c + i) mod c)) = Ptr s \<and> s \<noteq> k)"
  by (simp add: full_of_others_def probe_sequence_def)

lemma occupied_flags: "state_of e = Occupied \<Longrightarrow> used e \<noteq> 0 \<and> deleted e = 0"
  by (simp add: state_of_def split: if_splits)

lemma hashmap_set_sa_full:
  assumes c: "cap hm = 2 ^ n" "n < 64"
    and full: "full_of_others (entries_sa hm) (2 ^ n) (fnv_hash_sa k) k"
  shows "hashmap_set_sa hm k v kok vok = Inr (hm, -1)"
proof -
  let ?f = "hashmap_set_sa_loop hm k v kok vok (fnv_hash_sa k AND (cap hm - 1)) (-1)"
  have "?f 0 = ?f (2 ^ n)"
  proof (rule walk_const)
    fix i :: nat
    assume lt: "i < 2 ^ n"
    from full_of_others_nth[OF full lt] occupied_flags
    show "?f i = ?f (i + 1)"
      by (subst set_sa_loop_step[OF c lt]) (auto simp: Let_def)
  qed simp
  then show ?thesis
    by (simp add: hashmap_set_sa_def set_sa_loop_exit[OF c])
qed

lemma hashmap_get_sa_full:
  assumes c: "cap hm = 2 ^ n" "n < 64"
    and full: "full_of_others (entries_sa hm) (2 ^ n) (fnv_hash_sa k) k"
  shows "hashmap_get_sa hm k = Inr Null"
proof -
  let ?f = "hashmap_get_sa_loop hm k (fnv_hash_sa k AND (cap hm - 1))"
  have "?f 0 = ?f (2 ^ n)"
  proof (rule walk_const)
    fix i :: nat
    assume lt: "i < 2 ^ n"
    from full_of_others_nth[OF full lt] occupied_flags
    show "?f i = ?f (i + 1)"
      by (subst get_sa_loop_step[OF c lt]) (auto simp: Let_def)
  qed simp
  then show ?thesis
    by (simp add: hashmap_get_sa_def get_sa_loop_exit[OF c])
qed

lemma hashmap_set_full:
  assumes full: "full_of_others (entries hm) TABLE_SIZE (fnv_hash k) k"
  shows "hashmap_set hm k v kok vok = Inr hm"
proof -
  let ?f = "hashmap_set_loop hm k v kok vok (fnv_hash k AND of_nat (TABLE_SIZE - 1))"
  have "?f 0 = ?f TABLE_SIZE"
  proof (rule walk_const)
    fix i :: nat
    assume lt: "i < TABLE_SIZE"
    from full_of_others_nth[OF full lt] occupied_flags
    show "?f i = ?f (i + 1)"
      by (subst set_loop_step[OF lt]) (auto simp: Let_def)
  qed simp
  then show ?thesis
    by (simp add: hashmap_set_def set_loop_exit)
qed

lemma hashmap_get_full:
  assumes full: "full_of_others (entries hm) TABLE_SIZE (fnv_hash k) k"
  shows "hashmap_get hm k = Inr Null"
proof -
  let ?f = "hashmap_get_loop hm k (fnv_hash k AND of_nat (TABLE_SIZE - 1))"
  have "?f 0 = ?f TABLE_SIZE"
  proof (rule walk_const)
    fix i :: nat
    assume lt: "i < TABLE_SIZE"
    from full_of_others_nth[OF full lt] occupied_flags
    show "?f i = ?f (i + 1)"
      by (subst get_loop_step[OF lt]) (auto simp: Let_def)
  qed simp
  then show ?thesis
    by (simp add: hashmap_get_def get_loop_exit)
qed

section \<open>A set on a table full of other keys\<close>

text \<open>
  C5, as amended. When every slot of the probe sequence of a key is Occupied by another
  key, a set of that key leaves the table as it is and the key stays absent. The
  standalone table's set returns -1 to its caller. The server's set is
  \<^verbatim>\<open>void\<close>: it returns nothing, so the drop is silent there.
\<close>

theorem set_on_full_table:
  "(full_of_others (entries hm) TABLE_SIZE (fnv_hash k) k \<longrightarrow>
      hashmap_set hm k v kok vok = Inr hm \<and> hashmap_get hm k = Inr Null) \<and>
   (cap hs = 2 ^ n \<and> n < 64 \<and> full_of_others (entries_sa hs) (unat (cap hs)) (fnv_hash_sa k) k \<longrightarrow>
      hashmap_set_sa hs k v kok vok = Inr (hs, -1) \<and> hashmap_get_sa hs k = Inr Null)"
proof (intro conjI impI)
  assume a: "full_of_others (entries hm) TABLE_SIZE (fnv_hash k) k"
  show "hashmap_set hm k v kok vok = Inr hm"
    using a by (rule hashmap_set_full)
  show "hashmap_get hm k = Inr Null"
    using a by (rule hashmap_get_full)
next
  assume a: "cap hs = 2 ^ n \<and> n < 64 \<and> full_of_others (entries_sa hs) (unat (cap hs)) (fnv_hash_sa k) k"
  then have c: "cap hs = 2 ^ n" "n < 64"
    by simp_all
  then have u: "unat (cap hs) = 2 ^ n"
    by (simp add: unat_pow2_64)
  from a have f: "full_of_others (entries_sa hs) (2 ^ n) (fnv_hash_sa k) k"
    by (simp add: u)
  show "hashmap_set_sa hs k v kok vok = Inr (hs, -1)"
    using c f by (rule hashmap_set_sa_full)
  show "hashmap_get_sa hs k = Inr Null"
    using c f by (rule hashmap_get_sa_full)
qed

lemma TABLE_SIZE_pos: "0 < TABLE_SIZE"
  by (simp add: TABLE_SIZE_def)

lemma full_table_full: "full_of_others (entries full_table) TABLE_SIZE (fnv_hash ''z'') ''z''"
  using TABLE_SIZE_pos
  by (simp add: full_table_def full_of_others_def probe_sequence_def state_of_def full_entry_def)

lemma full_table_sa_full:
  "full_of_others (entries_sa full_table_sa) (unat (cap full_table_sa)) (fnv_hash_sa ''z'') ''z''"
  by (simp add: full_table_sa_def full_of_others_def probe_sequence_def state_of_def full_entry_def)

theorem set_on_full_table_witness:
  "full_of_others (entries full_table) TABLE_SIZE (fnv_hash ''z'') ''z'' \<and>
   hashmap_set full_table ''z'' ''w'' True True = Inr full_table \<and>
   hashmap_get full_table ''z'' = Inr Null \<and>
   cap full_table_sa = 2 ^ 2 \<and> (2::nat) < 64 \<and>
   full_of_others (entries_sa full_table_sa) (unat (cap full_table_sa)) (fnv_hash_sa ''z'') ''z'' \<and>
   hashmap_set_sa full_table_sa ''z'' ''w'' True True = Inr (full_table_sa, -1) \<and>
   hashmap_get_sa full_table_sa ''z'' = Inr Null"
proof -
  have c: "cap full_table_sa = 2 ^ 2 \<and> (2::nat) < 64"
    by (simp add: full_table_sa_def)
  from set_on_full_table[of full_table "''z''" "''w''" True True full_table_sa 2]
    full_table_full c full_table_sa_full
  show ?thesis
    by simp
qed

text \<open>
  The claim as stated fails on the server: its set has no result, and what the caller
  holds after a set that is dropped on the full table (key \<open>z\<close>) is exactly what it
  holds after a set that stores its value (key \<open>x\<close>, which is in the table).
\<close>

theorem server_set_drop_is_silent:
  "full_of_others (entries full_table) TABLE_SIZE (fnv_hash ''z'') ''z'' \<and>
   hashmap_set full_table ''z'' ''w'' True True = hashmap_set full_table ''x'' ''y'' True True \<and>
   hashmap_get full_table ''z'' = Inr Null \<and>
   hashmap_get full_table ''x'' = Inr (Ptr ''y'')"
proof -
  have d: "hashmap_set full_table ''z'' ''w'' True True = Inr full_table"
    using full_table_full by (rule hashmap_set_full)
  have z: "hashmap_get full_table ''z'' = Inr Null"
    using full_table_full by (rule hashmap_get_full)
  have lt: "775 < TABLE_SIZE"
    by (simp add: TABLE_SIZE_def)
  have h: "unat (fnv_hash ''x'') mod TABLE_SIZE = 775"
    by (simp add: fnv_hash_def FNV_OFFSET_def FNV_PRIME_def TABLE_SIZE_def)
  have p: "(unat (fnv_hash ''x'') mod TABLE_SIZE + 0) mod TABLE_SIZE = 775"
    using h lt by simp
  have n: "entries full_table ! 775 = full_entry 775"
    using lt by (simp add: full_table_def)
  then have u: "(entries full_table)[775 := full_entry 775] = entries full_table"
    by (metis list_update_id)
  have e: "full_entry 775 = \<lparr>key = Ptr ''x'', val = Ptr ''y'', used = 1, deleted = 0\<rparr>"
    by (simp add: full_entry_def)
  have s: "hashmap_set full_table ''x'' ''y'' True True = Inr full_table"
    unfolding hashmap_set_def
    apply (subst set_loop_step[OF TABLE_SIZE_pos])
    apply (simp only: p Let_def n)
    apply (simp add: e strdup_def)
    using u e apply simp
    done
  have x: "hashmap_get full_table ''x'' = Inr (Ptr ''y'')"
    unfolding hashmap_get_def
    apply (subst get_loop_step[OF TABLE_SIZE_pos])
    apply (simp only: p Let_def n)
    apply (simp add: e)
    done
  from full_table_full d s z x show ?thesis
    by simp
qed

section \<open>Where the tables break the invariants\<close>

text \<open>
  C1. The claim fails on the server. Its set writes into the first slot that is Empty
  or a Tombstone without looking further along the probe sequence, so a key that sits
  behind a Tombstone is stored a second time. The keys \<open>k0\<close> and \<open>k109\<close> both hash to
  slot 782: after set k0, set k109, delete k0, set k109 the slots 782 and 783 are both
  Occupied by \<open>k109\<close>.
\<close>

theorem server_set_duplicates_key:
  "run empty_table
     [Set ''k0'' ''1'' True True, Set ''k109'' ''2'' True True, Del ''k0'',
      Set ''k109'' ''3'' True True]
   = Inr \<lparr>entries = (replicate TABLE_SIZE zero_entry)
           [783 := occ ''k109'' ''2'', 782 := occ ''k109'' ''3'']\<rparr> \<and>
   state_of ((replicate TABLE_SIZE zero_entry)
           [783 := occ ''k109'' ''2'', 782 := occ ''k109'' ''3''] ! 782) = Occupied \<and>
   key ((replicate TABLE_SIZE zero_entry)
           [783 := occ ''k109'' ''2'', 782 := occ ''k109'' ''3''] ! 782) = Ptr ''k109'' \<and>
   state_of ((replicate TABLE_SIZE zero_entry)
           [783 := occ ''k109'' ''2'', 782 := occ ''k109'' ''3''] ! 783) = Occupied \<and>
   key ((replicate TABLE_SIZE zero_entry)
           [783 := occ ''k109'' ''2'', 782 := occ ''k109'' ''3''] ! 783) = Ptr ''k109''"
proof -
  let ?es = "(replicate TABLE_SIZE zero_entry)[783 := occ ''k109'' ''2'', 782 := occ ''k109'' ''3'']"
  have r: "run empty_table
     [Set ''k0'' ''1'' True True, Set ''k109'' ''2'' True True, Del ''k0'',
      Set ''k109'' ''3'' True True] = Inr \<lparr>entries = ?es\<rparr>"
    by (simp add: eval_srv occ_def list_update_swap[of 783 782])
  have "state_of (?es ! 782) = Occupied" "state_of (?es ! 783) = Occupied"
    "key (?es ! 782) = Ptr ''k109''" "key (?es ! 783) = Ptr ''k109''"
    by (simp_all add: TABLE_SIZE_def occ_def state_of_def)
  with r show ?thesis
    by simp
qed

text \<open>
  C2. The claim fails on the server. With the two copies of \<open>k109\<close> of the run above,
  delete removes the first and the lookup then returns the value of the second. And
  the server's delete compares the key of a deleted slot, whose buffer it has freed: a
  second delete of the same key reads freed memory instead of doing nothing.
\<close>

theorem server_get_after_delete_finds_key:
  "run empty_table
     [Set ''k0'' ''1'' True True, Set ''k109'' ''2'' True True, Del ''k0'',
      Set ''k109'' ''3'' True True, Del ''k109'']
   = Inr \<lparr>entries = (replicate TABLE_SIZE zero_entry)
           [783 := occ ''k109'' ''2'',
            782 := \<lparr>key = Dangling, val = Dangling, used = 1, deleted = 1\<rparr>]\<rparr> \<and>
   hashmap_get \<lparr>entries = (replicate TABLE_SIZE zero_entry)
           [783 := occ ''k109'' ''2'',
            782 := \<lparr>key = Dangling, val = Dangling, used = 1, deleted = 1\<rparr>]\<rparr> ''k109''
   = Inr (Ptr ''2'') \<and>
   run empty_table [Set ''k0'' ''1'' True True, Del ''k0'', Del ''k0''] = Inl UseAfterFree"
  by (simp add: eval_srv occ_def list_update_swap[of 783 782])

text \<open>
  C3. The claim fails on both tables when a set of another key cannot copy its key.
  Standalone table, capacity 4 (created for one expected item), keys \<open>a\<close>, \<open>e\<close>, \<open>i\<close>
  all hashing to slot 0: set a; set e succeeds and the lookup of \<open>e\<close> returns its value;
  delete a leaves a Tombstone in slot 0 and the lookup of \<open>e\<close> still succeeds; a set of
  \<open>i\<close> whose key copy fails returns -1 and resets the recorded Tombstone to Empty, after
  which the lookup of \<open>e\<close>, neither deleted nor overwritten, stops at slot 0 and returns
  not-found. Server: the same run with \<open>k0\<close>, \<open>k109\<close> stores a \<^verbatim>\<open>NULL\<close> key in slot 782,
  and the lookup of \<open>k109\<close> reads through it.
\<close>

theorem failed_copy_loses_other_key:
  "hashmap_create_sa True True 1 = Some (Some \<lparr>entries_sa = [zero_entry, zero_entry, zero_entry, zero_entry], cap = 4\<rparr>) \<and>
   hashmap_set_sa \<lparr>entries_sa = [zero_entry, zero_entry, zero_entry, zero_entry], cap = 4\<rparr>
       ''a'' ''1'' True True
     = Inr (\<lparr>entries_sa = [occ ''a'' ''1'', zero_entry, zero_entry, zero_entry], cap = 4\<rparr>, 0) \<and>
   hashmap_set_sa \<lparr>entries_sa = [occ ''a'' ''1'', zero_entry, zero_entry, zero_entry], cap = 4\<rparr>
       ''e'' ''2'' True True
     = Inr (\<lparr>entries_sa = [occ ''a'' ''1'', occ ''e'' ''2'', zero_entry, zero_entry], cap = 4\<rparr>, 0) \<and>
   hashmap_delete_sa
       \<lparr>entries_sa = [occ ''a'' ''1'', occ ''e'' ''2'', zero_entry, zero_entry], cap = 4\<rparr> ''a''
     = Inr \<lparr>entries_sa = [\<lparr>key = Null, val = Null, used = 1, deleted = 1\<rparr>, occ ''e'' ''2'',
                            zero_entry, zero_entry], cap = 4\<rparr> \<and>
   hashmap_get_sa
       \<lparr>entries_sa = [\<lparr>key = Null, val = Null, used = 1, deleted = 1\<rparr>, occ ''e'' ''2'',
                        zero_entry, zero_entry], cap = 4\<rparr> ''e''
     = Inr (Ptr ''2'') \<and>
   hashmap_set_sa
       \<lparr>entries_sa = [\<lparr>key = Null, val = Null, used = 1, deleted = 1\<rparr>, occ ''e'' ''2'',
                        zero_entry, zero_entry], cap = 4\<rparr> ''i'' ''3'' False True
     = Inr (\<lparr>entries_sa = [zero_entry, occ ''e'' ''2'', zero_entry, zero_entry], cap = 4\<rparr>, -1) \<and>
   hashmap_get_sa
       \<lparr>entries_sa = [zero_entry, occ ''e'' ''2'', zero_entry, zero_entry], cap = 4\<rparr> ''e''
     = Inr Null \<and>
   run empty_table
     [Set ''k0'' ''1'' True True, Set ''k109'' ''2'' True True, Del ''k0'',
      Set ''k0'' ''4'' False True]
     = Inr \<lparr>entries = (replicate TABLE_SIZE zero_entry)
           [783 := occ ''k109'' ''2'',
            782 := \<lparr>key = Null, val = Ptr ''4'', used = 1, deleted = 0\<rparr>]\<rparr> \<and>
   hashmap_get \<lparr>entries = (replicate TABLE_SIZE zero_entry)
           [783 := occ ''k109'' ''2'',
            782 := \<lparr>key = Null, val = Ptr ''4'', used = 1, deleted = 0\<rparr>]\<rparr> ''k109''
     = Inl NullDeref"
  by (simp add: eval_srv eval_sa occ_def list_update_swap[of 783 782]
      hashmap_create_sa_def next_pow2_def next_pow2_loop.simps replicate_4)

text \<open>
  C8. The claim fails on the server. Its set does not test what \<^verbatim>\<open>strdup\<close>
  returns and has no result: when the copy of the value or of the key fails, the slot
  becomes Occupied with a \<^verbatim>\<open>NULL\<close> value or key, a later lookup reads through the
  \<^verbatim>\<open>NULL\<close> key, and on the update path the old value is freed and replaced by
  \<^verbatim>\<open>NULL\<close>.
\<close>

theorem server_set_ignores_failed_copy:
  "hashmap_set empty_table ''a'' ''b'' True False
     = Inr \<lparr>entries = (replicate TABLE_SIZE zero_entry)
              [140 := \<lparr>key = Ptr ''a'', val = Null, used = 1, deleted = 0\<rparr>]\<rparr> \<and>
   state_of \<lparr>key = Ptr ''a'', val = Null, used = 1, deleted = 0\<rparr> = Occupied \<and>
   hashmap_set empty_table ''a'' ''b'' False True
     = Inr \<lparr>entries = (replicate TABLE_SIZE zero_entry)
              [140 := \<lparr>key = Null, val = Ptr ''b'', used = 1, deleted = 0\<rparr>]\<rparr> \<and>
   state_of \<lparr>key = Null, val = Ptr ''b'', used = 1, deleted = 0\<rparr> = Occupied \<and>
   hashmap_get \<lparr>entries = (replicate TABLE_SIZE zero_entry)
              [140 := \<lparr>key = Null, val = Ptr ''b'', used = 1, deleted = 0\<rparr>]\<rparr> ''a''
     = Inl NullDeref \<and>
   hashmap_set \<lparr>entries = (replicate TABLE_SIZE zero_entry) [140 := occ ''a'' ''b'']\<rparr>
       ''a'' ''c'' True False
     = Inr \<lparr>entries = (replicate TABLE_SIZE zero_entry)
              [140 := \<lparr>key = Ptr ''a'', val = Null, used = 1, deleted = 0\<rparr>]\<rparr>"
  by (simp add: eval_srv occ_def state_of_def)

text \<open>
  C4. The claim fails on the server. A set whose copy of the key fails leaves slot 140
  Occupied with a \<^verbatim>\<open>NULL\<close> key, in a table reached from the empty one by that
  one call. The lookup of the specification passes over that slot, whose key is not
  the one looked up, and says not-found at the Empty slot 141, for the key \<open>a\<close> and
  for \<open>d7\<close>, which was never set and hashes to the same slot. The lookup of the
  server calls \<^verbatim>\<open>strcmp\<close> on the \<^verbatim>\<open>NULL\<close> key. On the tables in which every
  Occupied slot has a live key the two lookups agree (\<open>hashmap_get_spec\<close>,
  \<open>hashmap_get_sa_spec\<close>).
\<close>

theorem server_get_reads_null_key:
  "run empty_table [Set ''a'' ''b'' False True]
     = Inr \<lparr>entries = (replicate TABLE_SIZE zero_entry)
             [140 := \<lparr>key = Null, val = Ptr ''b'', used = 1, deleted = 0\<rparr>]\<rparr> \<and>
   state_of (entries \<lparr>entries = (replicate TABLE_SIZE zero_entry)
             [140 := \<lparr>key = Null, val = Ptr ''b'', used = 1, deleted = 0\<rparr>]\<rparr> ! 140) = Occupied \<and>
   unat (fnv_hash ''a'') mod TABLE_SIZE = 140 \<and>
   get_spec (entries \<lparr>entries = (replicate TABLE_SIZE zero_entry)
             [140 := \<lparr>key = Null, val = Ptr ''b'', used = 1, deleted = 0\<rparr>]\<rparr>)
       TABLE_SIZE (fnv_hash ''a'') ''a'' = Null \<and>
   hashmap_get \<lparr>entries = (replicate TABLE_SIZE zero_entry)
             [140 := \<lparr>key = Null, val = Ptr ''b'', used = 1, deleted = 0\<rparr>]\<rparr> ''a''
     = Inl NullDeref \<and>
   unat (fnv_hash ''d7'') mod TABLE_SIZE = 140 \<and>
   get_spec (entries \<lparr>entries = (replicate TABLE_SIZE zero_entry)
             [140 := \<lparr>key = Null, val = Ptr ''b'', used = 1, deleted = 0\<rparr>]\<rparr>)
       TABLE_SIZE (fnv_hash ''d7'') ''d7'' = Null \<and>
   hashmap_get \<lparr>entries = (replicate TABLE_SIZE zero_entry)
             [140 := \<lparr>key = Null, val = Ptr ''b'', used = 1, deleted = 0\<rparr>]\<rparr> ''d7''
     = Inl NullDeref"
proof -
  let ?X = "\<lparr>key = Null, val = Ptr ''b'', used = 1, deleted = 0\<rparr>"
  let ?es = "(replicate TABLE_SIZE zero_entry)[140 := ?X]"
  have a: "run empty_table [Set ''a'' ''b'' False True] = Inr \<lparr>entries = ?es\<rparr>"
    by (simp add: eval_srv)
  have s0: "?es ! 140 = ?X"
    by (simp add: TABLE_SIZE_def)
  have s1: "?es ! 141 = zero_entry"
    by (simp add: TABLE_SIZE_def)
  have b: "state_of (entries \<lparr>entries = ?es\<rparr> ! 140) = Occupied"
    by (simp add: s0 state_of_def)
  have h: "unat (fnv_hash ''a'') mod TABLE_SIZE = 140"
    by (simp add: fnv_hash_def FNV_OFFSET_def FNV_PRIME_def TABLE_SIZE_def)
  have u0: "[0..<TABLE_SIZE] = 0 # [Suc 0..<TABLE_SIZE]"
    by (rule upt_conv_Cons) (rule TABLE_SIZE_pos)
  have u1: "[Suc 0..<TABLE_SIZE] = Suc 0 # [Suc (Suc 0)..<TABLE_SIZE]"
    by (rule upt_conv_Cons) (simp add: TABLE_SIZE_def)
  have m: "(140 + 0) mod TABLE_SIZE = 140" "(140 + Suc 0) mod TABLE_SIZE = 141"
    by (simp_all add: TABLE_SIZE_def)
  have c: "get_spec (entries \<lparr>entries = ?es\<rparr>) TABLE_SIZE (fnv_hash ''a'') ''a'' = Null"
    by (simp only: get_spec_def probe_sequence_def h u0 u1 list.map m hashmap.simps s0 s1)
       (simp add: state_of_def zero_entry_def)
  have d: "hashmap_get \<lparr>entries = ?es\<rparr> ''a'' = Inl NullDeref"
    by (simp add: eval_srv)
  have h': "unat (fnv_hash ''d7'') mod TABLE_SIZE = 140"
    by (simp add: fnv_hash_def FNV_OFFSET_def FNV_PRIME_def TABLE_SIZE_def)
  have c': "get_spec (entries \<lparr>entries = ?es\<rparr>) TABLE_SIZE (fnv_hash ''d7'') ''d7'' = Null"
    by (simp only: get_spec_def probe_sequence_def h' u0 u1 list.map m hashmap.simps s0 s1)
       (simp add: state_of_def zero_entry_def)
  have d': "hashmap_get \<lparr>entries = ?es\<rparr> ''d7'' = Inl NullDeref"
    by (simp add: eval_srv)
  from a b h c d h' c' d' show ?thesis
    by (intro conjI)
qed

section \<open>The request handler\<close>

lemma strtok_token:
  assumes "strtok s = Some (t, r)"
  shows "token t"
proof -
  let ?s1 = "dropWhile (\<lambda>b. b = CHR '':'') s"
  from assms have ne: "?s1 \<noteq> []" and t: "t = takeWhile (\<lambda>b. b \<noteq> CHR '':'') ?s1"
    by (auto simp: strtok_def Let_def split: if_splits)
  from ne have "hd ?s1 \<noteq> CHR '':''"
    using hd_dropWhile[of "\<lambda>b. b = CHR '':''" s] by blast
  with ne have "t \<noteq> []"
    unfolding t by (cases ?s1) auto
  moreover have "CHR '':'' \<notin> set t"
    unfolding t by (auto dest: set_takeWhileD)
  ultimately show ?thesis
    by (simp add: token_def)
qed

lemma strtok_colon: "strtok (CHR '':'' # s) = strtok s"
  by (simp add: strtok_def)

lemma strtok_colons: "strtok (replicate m CHR '':'' @ s) = strtok s"
  by (induction m) (simp_all add: strtok_colon)

lemma strtok_token_colon:
  assumes "token t"
  shows "strtok (t @ CHR '':'' # r) = Some (t, r)"
proof -
  from assms obtain b bs where t: "t = b # bs" and b: "b \<noteq> CHR '':''" and bs: "CHR '':'' \<notin> set bs"
    by (cases t) (auto simp: token_def)
  have p: "\<And>x. x \<in> set bs \<Longrightarrow> x \<noteq> CHR '':''"
    using bs by auto
  have "takeWhile (\<lambda>b. b \<noteq> CHR '':'') (bs @ CHR '':'' # r) = bs"
    by (simp add: takeWhile_append2[OF p])
  moreover have "dropWhile (\<lambda>b. b \<noteq> CHR '':'') (bs @ CHR '':'' # r) = CHR '':'' # r"
    by (simp add: dropWhile_append2[OF p])
  ultimately show ?thesis
    using b by (simp add: strtok_def t)
qed

lemma strtok_token_end:
  assumes "token t"
  shows "strtok t = Some (t, [])"
proof -
  from assms obtain b bs where t: "t = b # bs" and b: "b \<noteq> CHR '':''" and bs: "CHR '':'' \<notin> set bs"
    by (cases t) (auto simp: token_def)
  have p: "\<forall>x \<in> set bs. x \<noteq> CHR '':''"
    using bs by auto
  have tk: "takeWhile (\<lambda>b. b \<noteq> CHR '':'') bs = bs"
    using p by (simp only: takeWhile_eq_all_conv)
  have dr: "dropWhile (\<lambda>b. b \<noteq> CHR '':'') bs = []"
    using p by (simp only: dropWhile_eq_Nil_conv)
  show ?thesis
    using b by (simp add: strtok_def t tk dr)
qed

lemma strtok_set:
  "strtok (CHR ''s'' # CHR ''e'' # CHR ''t'' # CHR '':'' # r) = Some (''set'', r)"
  by (simp add: strtok_def)

lemma dispatch_set:
  assumes "token k" "token v"
  shows "handle_pkt_dispatch kok vok (''set'' @ CHR '':'' # k @ CHR '':'' # v) hm =
     (case hashmap_set hm k v kok vok of Inl f \<Rightarrow> Inl f | Inr hm' \<Rightarrow> Inr (Null, hm'))"
  unfolding handle_pkt_dispatch_def
  by (simp add: strtok_set strtok_token_colon[OF assms(1)] strtok_token_end[OF assms(2)])

lemma dispatch_set_extra:
  assumes "token k" "token v"
  shows "handle_pkt_dispatch kok vok (''set'' @ CHR '':'' # k @ CHR '':'' # v @ CHR '':'' # rest) hm =
     (case hashmap_set hm k v kok vok of Inl f \<Rightarrow> Inl f | Inr hm' \<Rightarrow> Inr (Null, hm'))"
  unfolding handle_pkt_dispatch_def
  by (simp add: strtok_set strtok_token_colon[OF assms(1)] strtok_token_colon[OF assms(2)])

lemma dispatch_set_colons:
  assumes "token k" "token v"
  shows "handle_pkt_dispatch kok vok
           (''set'' @ replicate (Suc a) CHR '':'' @ k @ replicate (Suc b) CHR '':'' @ v) hm =
     (case hashmap_set hm k v kok vok of Inl f \<Rightarrow> Inl f | Inr hm' \<Rightarrow> Inr (Null, hm'))"
proof -
  have 1: "strtok (''set'' @ replicate (Suc a) CHR '':'' @ k @ replicate (Suc b) CHR '':'' @ v)
             = Some (''set'', replicate a CHR '':'' @ k @ replicate (Suc b) CHR '':'' @ v)"
    using strtok_set[of "replicate a CHR '':'' @ k @ replicate (Suc b) CHR '':'' @ v"] by simp
  have 2: "strtok (replicate a CHR '':'' @ k @ replicate (Suc b) CHR '':'' @ v)
             = Some (k, replicate b CHR '':'' @ v)"
    using strtok_token_colon[OF assms(1), of "replicate b CHR '':'' @ v"]
    by (simp add: strtok_colons)
  have 3: "strtok (replicate b CHR '':'' @ v) = Some (v, [])"
    using strtok_token_end[OF assms(2)] by (simp add: strtok_colons)
  show ?thesis
    unfolding handle_pkt_dispatch_def by (simp only: 1 2 3 option.case prod.case) simp
qed

lemma dispatch_set_no_value:
  assumes "token k"
  shows "handle_pkt_dispatch kok vok (''set'' @ CHR '':'' # k @ [CHR '':'']) hm = Inr (Null, hm)"
proof -
  have "strtok [] = None"
    by (simp add: strtok_def)
  then show ?thesis
    unfolding handle_pkt_dispatch_def
    using strtok_token_colon[OF assms, of "[]"] by (simp add: strtok_set)
qed

lemma dispatch_effect:
  assumes "handle_pkt_dispatch kok vok msg hm = Inr (reply, hm')"
  shows "hm' = hm \<or>
         (\<exists>k v. token k \<and> token v \<and> hashmap_set hm k v kok vok = Inr hm') \<or>
         (\<exists>k. token k \<and> hashmap_delete hm k = Inr hm')"
  using assms unfolding handle_pkt_dispatch_def
  by (auto split: option.splits if_splits sum.splits) (metis strtok_token)+

lemma dispatch_reply:
  assumes "handle_pkt_dispatch kok vok msg hm = Inr (reply, hm')"
  shows "reply = Null \<or> (\<exists>k. token k \<and> hashmap_get hm k = Inr reply)"
  using assms unfolding handle_pkt_dispatch_def
  by (auto split: option.splits if_splits sum.splits) (metis strtok_token)+

text \<open>
  C10. Every token \<^verbatim>\<open>strtok\<close> returns is not empty and has no colon, and the keys
  and values the dispatch passes to the table are such tokens: whatever a request does
  to the table is nothing, a set of two tokens or a delete of one, and a reply is the
  lookup of a token. A set body stores the third token only, whatever follows the next
  colon; runs of colons count as one; and a set body whose value token is empty, as
  \<open>set:k:\<close>, changes nothing.
\<close>

theorem strtok_tokens_of_request:
  "(strtok s = Some (t, r) \<longrightarrow> token t) \<and>
   (handle_pkt_dispatch kok vok msg hm = Inr (reply, hm') \<longrightarrow>
      (hm' = hm \<or>
       (\<exists>k v. token k \<and> token v \<and> hashmap_set hm k v kok vok = Inr hm') \<or>
       (\<exists>k. token k \<and> hashmap_delete hm k = Inr hm')) \<and>
      (reply = Null \<or> (\<exists>k. token k \<and> hashmap_get hm k = Inr reply))) \<and>
   (token k \<and> token v \<longrightarrow>
      handle_pkt_dispatch kok vok (''set:'' @ k @ '':'' @ v) hm =
        (case hashmap_set hm k v kok vok of Inl f \<Rightarrow> Inl f | Inr hm1 \<Rightarrow> Inr (Null, hm1)) \<and>
      handle_pkt_dispatch kok vok (''set:'' @ k @ '':'' @ v @ '':'' @ rest) hm =
        handle_pkt_dispatch kok vok (''set:'' @ k @ '':'' @ v) hm \<and>
      handle_pkt_dispatch kok vok
          (''set'' @ replicate (Suc a) CHR '':'' @ k @ replicate (Suc b) CHR '':'' @ v) hm =
        handle_pkt_dispatch kok vok (''set:'' @ k @ '':'' @ v) hm) \<and>
   (token k \<longrightarrow> handle_pkt_dispatch kok vok (''set:'' @ k @ '':'') hm = Inr (Null, hm)) \<and>
   handle_pkt kok vok (request ''6:set:k:'') hm
     = Inr (\<lparr>pending = [], peer_closed = True, written = []\<rparr>, hm)"
proof (intro conjI impI)
  assume "strtok s = Some (t, r)"
  then show "token t"
    by (rule strtok_token)
next
  assume d: "handle_pkt_dispatch kok vok msg hm = Inr (reply, hm')"
  then show "hm' = hm \<or>
       (\<exists>k v. token k \<and> token v \<and> hashmap_set hm k v kok vok = Inr hm') \<or>
       (\<exists>k. token k \<and> hashmap_delete hm k = Inr hm')"
    by (rule dispatch_effect)
  from d show "reply = Null \<or> (\<exists>k. token k \<and> hashmap_get hm k = Inr reply)"
    by (rule dispatch_reply)
next
  assume t: "token k \<and> token v"
  then have s: "handle_pkt_dispatch kok vok (''set:'' @ k @ '':'' @ v) hm =
        (case hashmap_set hm k v kok vok of Inl f \<Rightarrow> Inl f | Inr hm1 \<Rightarrow> Inr (Null, hm1))"
    using dispatch_set[of k v kok vok hm] by simp
  then show "handle_pkt_dispatch kok vok (''set:'' @ k @ '':'' @ v) hm =
        (case hashmap_set hm k v kok vok of Inl f \<Rightarrow> Inl f | Inr hm1 \<Rightarrow> Inr (Null, hm1))" .
  from t show "handle_pkt_dispatch kok vok (''set:'' @ k @ '':'' @ v @ '':'' @ rest) hm =
        handle_pkt_dispatch kok vok (''set:'' @ k @ '':'' @ v) hm"
    unfolding s using dispatch_set_extra[of k v kok vok rest hm] by simp
  from t show "handle_pkt_dispatch kok vok
          (''set'' @ replicate (Suc a) CHR '':'' @ k @ replicate (Suc b) CHR '':'' @ v) hm =
        handle_pkt_dispatch kok vok (''set:'' @ k @ '':'' @ v) hm"
    unfolding s using dispatch_set_colons[of k v kok vok a b hm] by simp
next
  assume "token k"
  then show "handle_pkt_dispatch kok vok (''set:'' @ k @ '':'') hm = Inr (Null, hm)"
    using dispatch_set_no_value[of k kok vok hm] by simp
next
  show "handle_pkt kok vok (request ''6:set:k:'') hm
     = Inr (\<lparr>pending = [], peer_closed = True, written = []\<rparr>, hm)"
    by (simp add: eval_pkt)
qed

theorem strtok_tokens_of_request_witness:
  "strtok ''::k:v'' = Some (''k'', ''v'') \<and> token ''k'' \<and> token ''v'' \<and>
   handle_pkt_dispatch True True ''set:k:v'' empty_table
     = Inr (Null, \<lparr>entries = (replicate TABLE_SIZE zero_entry)[394 := occ ''k'' ''v'']\<rparr>) \<and>
   handle_pkt_dispatch True True ''set:k:v:extra'' empty_table
     = Inr (Null, \<lparr>entries = (replicate TABLE_SIZE zero_entry)[394 := occ ''k'' ''v'']\<rparr>) \<and>
   handle_pkt_dispatch True True ''set::k:::v'' empty_table
     = Inr (Null, \<lparr>entries = (replicate TABLE_SIZE zero_entry)[394 := occ ''k'' ''v'']\<rparr>) \<and>
   handle_pkt_dispatch True True ''set:k:'' empty_table = Inr (Null, empty_table) \<and>
   hashmap_set empty_table ''k'' ''v'' True True
     = Inr \<lparr>entries = (replicate TABLE_SIZE zero_entry)[394 := occ ''k'' ''v'']\<rparr>"
proof -
  have s: "strtok ''::k:v'' = Some (''k'', ''v'')"
    by (simp add: strtok_def)
  have t: "token ''k'' \<and> token ''v''"
    by (simp add: token_def)
  have h: "hashmap_set empty_table ''k'' ''v'' True True
     = Inr \<lparr>entries = (replicate TABLE_SIZE zero_entry)[394 := occ ''k'' ''v'']\<rparr>"
    by (simp add: eval_srv occ_def)
  have d: "handle_pkt_dispatch True True ''set:k:v'' empty_table
     = Inr (Null, \<lparr>entries = (replicate TABLE_SIZE zero_entry)[394 := occ ''k'' ''v'']\<rparr>)"
    unfolding handle_pkt_dispatch_def by (simp add: h strtok_def)
  from strtok_tokens_of_request[of "''::k:v''" "''k''" "''v''" True True "''set:k:v''" empty_table
      Null "\<lparr>entries = (replicate TABLE_SIZE zero_entry)[394 := occ ''k'' ''v'']\<rparr>"
      "''k''" "''v''" "''extra''" "Suc 0" "Suc (Suc 0)"] s t h d
  show ?thesis
    by simp
qed



text \<open>
  C6. The claim fails for the empty body. The request \<open>0:\<close> has a body without a
  token, the first \<^verbatim>\<open>strtok\<close> returns \<^verbatim>\<open>NULL\<close>, and \<^verbatim>\<open>strcmp(cmd, "get")\<close> reads
  through it, whatever the table holds.
\<close>

theorem empty_body_crashes_handler:
  "handle_pkt kok vok (request ''0:'') hm = Inl NullDeref"
  by (simp add: eval_pkt)

section \<open>The round trip while copies succeed\<close>

text \<open>
  What holds of the round trip: in both tables a set that stores its pair is followed
  by a lookup that returns the value, and the lookup keeps returning it through every
  run of operations on other keys whose copies succeed (and, in the server, that
  returns without a fault).
\<close>

lemma walk_range:
  fixes f :: "nat \<Rightarrow> 'a"
  assumes "a \<le> p" and "\<And>i. a \<le> i \<Longrightarrow> i < p \<Longrightarrow> f i = f (i + 1)"
  shows "f a = f p"
  using assms
proof (induction p rule: dec_induct)
  case base
  then show ?case by simp
next
  case (step m)
  then have "f a = f m" by simp
  also have "f m = f (m + 1)" using step by simp
  finally show ?case by simp
qed

lemma probe_inj_le:
  fixes a c i j :: nat
  assumes "i \<le> j" "j < c" "(a + i) mod c = (a + j) mod c"
  shows "i = j"
proof -
  have "c dvd (a + j) - (a + i)"
    using mod_eq_dvd_iff_nat[of "a + i" "a + j" c] assms(1,3) by auto
  then have "c dvd j - i"
    by simp
  moreover have "j - i < c"
    using assms(2) by simp
  ultimately have "j - i = 0"
    using nat_dvd_not_less by blast
  with assms(1) show ?thesis
    by simp
qed

lemma probe_inj:
  fixes a c i j :: nat
  assumes "i < c" "j < c" "(a + i) mod c = (a + j) mod c"
  shows "i = j"
proof (cases "i \<le> j")
  case True
  with assms show ?thesis
    by (intro probe_inj_le[of i j c a]) simp_all
next
  case False
  with assms have "j = i"
    by (intro probe_inj_le[of j i c a]) simp_all
  then show ?thesis
    by simp
qed

lemma get_sa_loop_pass:
  assumes c: "cap hm = 2 ^ n" "n < 64" and lt: "i < 2 ^ n"
    and p: "passed k (entries_sa hm ! ((unat h mod 2 ^ n + i) mod 2 ^ n))"
  shows "hashmap_get_sa_loop hm k (h AND (cap hm - 1)) i =
         hashmap_get_sa_loop hm k (h AND (cap hm - 1)) (i + 1)"
  using p by (subst get_sa_loop_step[OF c lt]) (auto simp: passed_def Let_def)

lemma get_sa_loop_hit:
  assumes c: "cap hm = 2 ^ n" "n < 64" and lt: "i < 2 ^ n"
    and e: "entries_sa hm ! ((unat h mod 2 ^ n + i) mod 2 ^ n) = e"
    and h: "used e \<noteq> 0" "deleted e = 0" "key e = Ptr k"
  shows "hashmap_get_sa_loop hm k (h AND (cap hm - 1)) i = Inr (val e)"
  using h by (subst get_sa_loop_step[OF c lt]) (simp add: e Let_def)

lemma get_sa_found:
  assumes c: "cap hm = 2 ^ n" "n < 64" and lt: "p < 2 ^ n"
    and before: "\<And>j. j < p \<Longrightarrow> passed k (entries_sa hm ! ((unat (fnv_hash_sa k) mod 2 ^ n + j) mod 2 ^ n))"
    and e: "entries_sa hm ! ((unat (fnv_hash_sa k) mod 2 ^ n + p) mod 2 ^ n) = e"
    and h: "used e \<noteq> 0" "deleted e = 0" "key e = Ptr k"
  shows "hashmap_get_sa hm k = Inr (val e)"
proof -
  let ?f = "hashmap_get_sa_loop hm k (fnv_hash_sa k AND (cap hm - 1))"
  have "?f 0 = ?f p"
  proof (rule walk_range)
    fix i :: nat
    assume "i < p"
    with lt have "i < 2 ^ n" by simp
    then show "?f i = ?f (i + 1)"
      using before[OF \<open>i < p\<close>] by (intro get_sa_loop_pass[OF c]) simp_all
  qed simp
  also have "?f p = Inr (val e)"
    using get_sa_loop_hit[OF c lt e h] .
  finally show ?thesis
    by (simp add: hashmap_get_sa_def)
qed

lemma set_sa_loop_then_get:
  assumes c: "cap hm = 2 ^ n" "n < 64" and len: "length (entries_sa hm) = 2 ^ n"
  shows "i \<le> 2 ^ n \<Longrightarrow>
     (\<And>j. j < i \<Longrightarrow> passed k (entries_sa hm ! ((unat (fnv_hash_sa k) mod 2 ^ n + j) mod 2 ^ n))) \<Longrightarrow>
     (0 \<le> ft \<Longrightarrow> \<exists>p < i. nat ft = (unat (fnv_hash_sa k) mod 2 ^ n + p) mod 2 ^ n) \<Longrightarrow>
     hashmap_set_sa_loop hm k v kok vok (fnv_hash_sa k AND (cap hm - 1)) ft i = Inr (hm', 0) \<Longrightarrow>
     hashmap_get_sa hm' k = Inr (Ptr v)"
proof (induction "2 ^ n - i" arbitrary: i ft)
  case 0
  then have "i = 2 ^ n" by simp
  with 0 show ?case
    by (simp add: set_sa_loop_exit[OF c])
next
  case (Suc m)
  let ?pos = "\<lambda>j. (unat (fnv_hash_sa k) mod 2 ^ n + j) mod 2 ^ n"
  let ?es = "entries_sa hm"
  from Suc have lt: "i < 2 ^ n" by simp
  define e where "e = ?es ! ?pos i"
  note st = set_sa_loop_step[OF c lt, of k v kok vok "fnv_hash_sa k" ft, unfolded Let_def,
      folded e_def]
  have pl: "\<And>j. ?pos j < length ?es" by (simp add: len)
  show ?case
  proof (cases "used e = 0")
    case True
    define d where "d = (if 0 \<le> ft then nat ft else ?pos i)"
    from Suc.prems(4) True have ok: "kok" "vok"
      and hm': "hm' = hm\<lparr>entries_sa := ?es[d := (?es ! d)\<lparr>key := Ptr k, val := Ptr v, used := 1, deleted := 0\<rparr>]\<rparr>"
      by (auto simp: st Let_def d_def strdup_def e_def split: if_splits)
    obtain p where p: "p \<le> i" "d = ?pos p"
    proof (cases "0 \<le> ft")
      case True
      with Suc.prems(3) obtain p where "p < i" "nat ft = ?pos p" by blast
      with True that[of p] show ?thesis by (simp add: d_def)
    next
      case False
      with that[of i] show ?thesis by (simp add: d_def)
    qed
    have c': "cap hm' = 2 ^ n" using c by (simp add: hm')
    have pl2: "p < 2 ^ n" using p lt by simp
    let ?x = "(?es ! d)\<lparr>key := Ptr k, val := Ptr v, used := 1, deleted := 0\<rparr>"
    have "hashmap_get_sa hm' k = Inr (val ?x)"
    proof (rule get_sa_found[OF c' c(2) pl2])
      fix j assume j: "j < p"
      then have "?pos j \<noteq> ?pos p"
        using probe_inj[of j "2 ^ n" p "unat (fnv_hash_sa k) mod 2 ^ n"] pl2 by auto
      then have "entries_sa hm' ! ?pos j = ?es ! ?pos j"
        by (simp add: hm' p)
      moreover have "passed k (?es ! ?pos j)"
        using Suc.prems(2)[of j] j p by simp
      ultimately show "passed k (entries_sa hm' ! ?pos j)" by simp
    next
      show "entries_sa hm' ! ?pos p = (?es ! d)\<lparr>key := Ptr k, val := Ptr v, used := 1, deleted := 0\<rparr>"
        using pl[of p] by (simp add: hm' p)
    qed simp_all
    then show ?thesis
      by simp
  next
    case False
    note u = this
    show ?thesis
    proof (cases "deleted e = 0")
      case False
      have pass: "passed k e" using u False by (simp add: passed_def)
      have rec: "hashmap_set_sa_loop hm k v kok vok (fnv_hash_sa k AND (cap hm - 1))
                  (if ft < 0 then int (?pos i) else ft) (i + 1) = Inr (hm', 0)"
        using Suc.prems(4) u False by (simp add: st Let_def)
      show ?thesis
      proof (rule Suc.hyps(1)[OF _ _ _ _ rec])
        show "m = 2 ^ n - (i + 1)" using Suc.hyps(2) by simp
        show "i + 1 \<le> 2 ^ n" using lt by simp
        fix j assume "j < i + 1"
        then show "passed k (?es ! ?pos j)"
          using Suc.prems(2)[of j] pass by (cases "j = i") (simp_all add: e_def)
      next
        assume "0 \<le> (if ft < 0 then int (?pos i) else ft)"
        show "\<exists>p<i + 1. nat (if ft < 0 then int (?pos i) else ft) = ?pos p"
        proof (cases "ft < 0")
          case True
          then show ?thesis by (intro exI[of _ i]) simp
        next
          case False
          with Suc.prems(3) obtain p where "p < i" "nat ft = ?pos p" by auto
          with False show ?thesis by (intro exI[of _ p]) simp
        qed
      qed
    next
      case True
      note d = this
      from Suc.prems(4) u d obtain s where s: "key e = Ptr s"
        by (cases "key e") (auto simp: st Let_def)
      show ?thesis
      proof (cases "s = k")
        case True
        from Suc.prems(4) u d s True have ok: "vok"
          and hm': "hm' = hm\<lparr>entries_sa := ?es[?pos i := e\<lparr>val := Ptr v\<rparr>]\<rparr>"
          by (auto simp: st Let_def strdup_def split: if_splits)
        have c': "cap hm' = 2 ^ n" using c by (simp add: hm')
        have "hashmap_get_sa hm' k = Inr (val (e\<lparr>val := Ptr v\<rparr>))"
        proof (rule get_sa_found[OF c' c(2) lt])
          fix j assume j: "j < i"
          then have "?pos j \<noteq> ?pos i"
            using probe_inj[of j "2 ^ n" i "unat (fnv_hash_sa k) mod 2 ^ n"] lt by auto
          then have "entries_sa hm' ! ?pos j = ?es ! ?pos j"
            by (simp add: hm')
          then show "passed k (entries_sa hm' ! ?pos j)"
            using Suc.prems(2)[of j] j by simp
        next
          show "entries_sa hm' ! ?pos i = e\<lparr>val := Ptr v\<rparr>"
            using pl[of i] by (simp add: hm')
        next
          show "used (e\<lparr>val := Ptr v\<rparr>) \<noteq> 0" "deleted (e\<lparr>val := Ptr v\<rparr>) = 0"
            "key (e\<lparr>val := Ptr v\<rparr>) = Ptr k"
            using u d s True by simp_all
        qed
        then show ?thesis
          by simp
      next
        case False
        have pass: "passed k e" using u s False by (simp add: passed_def)
        have rec: "hashmap_set_sa_loop hm k v kok vok (fnv_hash_sa k AND (cap hm - 1)) ft (i + 1)
                     = Inr (hm', 0)"
          using Suc.prems(4) u d s False by (simp add: st Let_def)
        show ?thesis
        proof (rule Suc.hyps(1)[OF _ _ _ _ rec])
          show "m = 2 ^ n - (i + 1)" using Suc.hyps(2) by simp
          show "i + 1 \<le> 2 ^ n" using lt by simp
          fix j assume "j < i + 1"
          then show "passed k (?es ! ?pos j)"
            using Suc.prems(2)[of j] pass by (cases "j = i") (simp_all add: e_def)
        next
          assume "0 \<le> ft"
          with Suc.prems(3) obtain p where "p < i" "nat ft = ?pos p" by auto
          then show "\<exists>p<i + 1. nat ft = ?pos p" by (intro exI[of _ p]) simp
        qed
      qed
    qed
  qed
qed

lemma hashmap_set_sa_then_get:
  assumes c: "cap hm = 2 ^ n" "n < 64" and len: "length (entries_sa hm) = 2 ^ n"
    and s: "hashmap_set_sa hm k v kok vok = Inr (hm', 0)"
  shows "hashmap_get_sa hm' k = Inr (Ptr v)"
proof (rule set_sa_loop_then_get[OF c len, where i = 0 and ft = "-1"])
  show "hashmap_set_sa_loop hm k v kok vok (fnv_hash_sa k AND (cap hm - 1)) (-1) 0 = Inr (hm', 0)"
    using s by (simp add: hashmap_set_sa_def)
qed simp_all

lemma get_loop_pass:
  assumes lt: "i < TABLE_SIZE"
    and p: "passed k (entries hm ! ((unat h mod TABLE_SIZE + i) mod TABLE_SIZE))"
  shows "hashmap_get_loop hm k (h AND of_nat (TABLE_SIZE - 1)) i =
         hashmap_get_loop hm k (h AND of_nat (TABLE_SIZE - 1)) (i + 1)"
  using p by (subst get_loop_step[OF lt]) (auto simp: passed_def Let_def)

lemma get_loop_hit:
  assumes lt: "i < TABLE_SIZE"
    and e: "entries hm ! ((unat h mod TABLE_SIZE + i) mod TABLE_SIZE) = e"
    and h: "used e \<noteq> 0" "deleted e = 0" "key e = Ptr k"
  shows "hashmap_get_loop hm k (h AND of_nat (TABLE_SIZE - 1)) i = Inr (val e)"
  using h by (subst get_loop_step[OF lt]) (simp add: e Let_def)

lemma get_found:
  assumes lt: "p < TABLE_SIZE"
    and before: "\<And>j. j < p \<Longrightarrow>
       passed k (entries hm ! ((unat (fnv_hash k) mod TABLE_SIZE + j) mod TABLE_SIZE))"
    and e: "entries hm ! ((unat (fnv_hash k) mod TABLE_SIZE + p) mod TABLE_SIZE) = e"
    and h: "used e \<noteq> 0" "deleted e = 0" "key e = Ptr k"
  shows "hashmap_get hm k = Inr (val e)"
proof -
  let ?f = "hashmap_get_loop hm k (fnv_hash k AND of_nat (TABLE_SIZE - 1))"
  have "?f 0 = ?f p"
  proof (rule walk_range)
    fix i :: nat
    assume "i < p"
    with lt have "i < TABLE_SIZE" by simp
    then show "?f i = ?f (i + 1)"
      using before[OF \<open>i < p\<close>] by (intro get_loop_pass) simp_all
  qed simp
  also have "?f p = Inr (val e)"
    using get_loop_hit[OF lt e h] .
  finally show ?thesis
    by (simp add: hashmap_get_def)
qed

lemma other_passed: "other k e \<Longrightarrow> passed k e"
  by (auto simp: other_def passed_def)

lemma full_of_others_iff:
  "0 < c \<Longrightarrow> full_of_others slots c h k \<longleftrightarrow> (\<forall>j < c. other k (slots ! ((unat h mod c + j) mod c)))"
  by (auto simp: full_of_others_def probe_sequence_def other_def state_of_def split: if_splits)

lemma set_loop_then_get:
  assumes len: "length (entries hm) = TABLE_SIZE"
  shows "i \<le> TABLE_SIZE \<Longrightarrow>
     (\<And>j. j < i \<Longrightarrow>
        other k (entries hm ! ((unat (fnv_hash k) mod TABLE_SIZE + j) mod TABLE_SIZE))) \<Longrightarrow>
     hashmap_set_loop hm k v True True (fnv_hash k AND of_nat (TABLE_SIZE - 1)) i = Inr hm' \<Longrightarrow>
     hashmap_get hm' k = Inr (Ptr v) \<or>
     (\<forall>j < TABLE_SIZE.
        other k (entries hm ! ((unat (fnv_hash k) mod TABLE_SIZE + j) mod TABLE_SIZE)))"
proof (induction "TABLE_SIZE - i" arbitrary: i)
  case 0
  then have "i = TABLE_SIZE" by simp
  with 0 show ?case
    by simp
next
  case (Suc m)
  let ?pos = "\<lambda>j. (unat (fnv_hash k) mod TABLE_SIZE + j) mod TABLE_SIZE"
  let ?es = "entries hm"
  from Suc have lt: "i < TABLE_SIZE" by simp
  define e where "e = ?es ! ?pos i"
  note st = set_loop_step[OF lt, of hm k v True True "fnv_hash k", unfolded Let_def, folded e_def]
  have pl: "\<And>j. ?pos j < length ?es"
    using lt by (simp add: len)
  have diff: "?pos j \<noteq> ?pos i" if "j < i" for j
    using probe_inj[of j TABLE_SIZE i "unat (fnv_hash k) mod TABLE_SIZE"] that lt by auto
  show ?case
  proof (cases "used e = 0 \<or> deleted e \<noteq> 0")
    case True
    let ?x = "e\<lparr>key := Ptr k, val := Ptr v, used := 1, deleted := 0\<rparr>"
    from Suc.prems(3)[unfolded st] True have hm': "hm' = hm\<lparr>entries := ?es[?pos i := ?x]\<rparr>"
      by (auto simp: strdup_def)
    have "hashmap_get hm' k = Inr (val ?x)"
    proof (rule get_found[OF lt])
      fix j assume j: "j < i"
      then have "entries hm' ! ?pos j = ?es ! ?pos j"
        using diff[OF j] by (simp add: hm')
      then show "passed k (entries hm' ! ?pos j)"
        using Suc.prems(2)[OF j] by (simp add: other_passed)
    next
      show "entries hm' ! ?pos i = ?x"
        using pl[of i] by (simp add: hm')
    qed simp_all
    then show ?thesis
      by simp
  next
    case False
    then have u: "used e \<noteq> 0" "deleted e = 0" by simp_all
    from Suc.prems(3)[unfolded st] u obtain s where s: "key e = Ptr s"
      by (cases "key e") auto
    show ?thesis
    proof (cases "s = k")
      case True
      let ?x = "e\<lparr>val := Ptr v\<rparr>"
      from Suc.prems(3)[unfolded st] u s True have hm': "hm' = hm\<lparr>entries := ?es[?pos i := ?x]\<rparr>"
        by (auto simp: strdup_def)
      have "hashmap_get hm' k = Inr (val ?x)"
      proof (rule get_found[OF lt])
        fix j assume j: "j < i"
        then have "entries hm' ! ?pos j = ?es ! ?pos j"
          using diff[OF j] by (simp add: hm')
        then show "passed k (entries hm' ! ?pos j)"
          using Suc.prems(2)[OF j] by (simp add: other_passed)
      next
        show "entries hm' ! ?pos i = ?x"
          using pl[of i] by (simp add: hm')
      next
        show "used ?x \<noteq> 0" "deleted ?x = 0" "key ?x = Ptr k"
          using u s True by simp_all
      qed
      then show ?thesis
        by simp
    next
      case False
      have oth: "other k e"
        using u s False by (simp add: other_def)
      have rec: "hashmap_set_loop hm k v True True (fnv_hash k AND of_nat (TABLE_SIZE - 1)) (i + 1)
                   = Inr hm'"
        using Suc.prems(3)[unfolded st] u s False by simp
      show ?thesis
      proof (rule Suc.hyps(1)[OF _ _ _ rec])
        show "m = TABLE_SIZE - (i + 1)" using Suc.hyps(2) by simp
        show "i + 1 \<le> TABLE_SIZE" using lt by simp
        fix j assume "j < i + 1"
        then show "other k (?es ! ?pos j)"
          using Suc.prems(2)[of j] oth by (cases "j = i") (simp_all add: e_def)
      qed
    qed
  qed
qed

lemma hashmap_set_then_get:
  assumes len: "length (entries hm) = TABLE_SIZE"
    and s: "hashmap_set hm k v True True = Inr hm'"
    and room: "\<not> full_of_others (entries hm) TABLE_SIZE (fnv_hash k) k"
  shows "hashmap_get hm' k = Inr (Ptr v)"
proof -
  have "hashmap_get hm' k = Inr (Ptr v) \<or>
     (\<forall>j < TABLE_SIZE.
        other k (entries hm ! ((unat (fnv_hash k) mod TABLE_SIZE + j) mod TABLE_SIZE)))"
    by (rule set_loop_then_get[OF len, where i = 0]) (use s in \<open>simp_all add: hashmap_set_def\<close>)
  with room show ?thesis
    unfolding full_of_others_iff[OF TABLE_SIZE_pos] by blast
qed

lemma holds_not_passed: "holds k e \<Longrightarrow> \<not> passed k e"
  by (auto simp: holds_def passed_def)

lemma get_sa_loop_result:
  assumes c: "cap hm = 2 ^ n" "n < 64"
  shows "i \<le> 2 ^ n \<Longrightarrow>
     hashmap_get_sa_loop hm k (h AND (cap hm - 1)) i = Inr (Ptr v) \<Longrightarrow>
     \<exists>p. i \<le> p \<and> p < 2 ^ n \<and>
         (\<forall>j. i \<le> j \<and> j < p \<longrightarrow> passed k (entries_sa hm ! ((unat h mod 2 ^ n + j) mod 2 ^ n))) \<and>
         holds k (entries_sa hm ! ((unat h mod 2 ^ n + p) mod 2 ^ n)) \<and>
         val (entries_sa hm ! ((unat h mod 2 ^ n + p) mod 2 ^ n)) = Ptr v"
proof (induction "2 ^ n - i" arbitrary: i)
  case 0
  then have "i = 2 ^ n" by simp
  with 0 show ?case
    by (simp add: get_sa_loop_exit[OF c])
next
  case (Suc m)
  let ?pos = "\<lambda>j. (unat h mod 2 ^ n + j) mod 2 ^ n"
  from Suc have lt: "i < 2 ^ n" by simp
  define e where "e = entries_sa hm ! ?pos i"
  note st = get_sa_loop_step[OF c lt, of k h, unfolded Let_def, folded e_def]
  note g = Suc.prems(2)[unfolded st]
  show ?case
  proof (cases "holds k e")
    case True
    then have "val e = Ptr v"
      using g by (simp add: holds_def)
    with True show ?thesis
      by (intro exI[of _ i]) (use lt in \<open>auto simp: e_def\<close>)
  next
    case False
    from g have u: "used e \<noteq> 0"
      by (auto split: if_splits)
    have "passed k e \<and> hashmap_get_sa_loop hm k (h AND (cap hm - 1)) (i + 1) = Inr (Ptr v)"
    proof (cases "deleted e = 0")
      case True
      with g u obtain s where s: "key e = Ptr s"
        by (cases "key e") auto
      with False u True have "s \<noteq> k"
        by (auto simp: holds_def)
      with g u True s show ?thesis
        by (simp add: passed_def)
    next
      case False
      with g u show ?thesis
        by (simp add: passed_def)
    qed
    then have pass: "passed k e"
      and rec: "hashmap_get_sa_loop hm k (h AND (cap hm - 1)) (i + 1) = Inr (Ptr v)"
      by simp_all
    have m: "m = 2 ^ n - (i + 1)"
      using Suc.hyps(2) by simp
    have le: "i + 1 \<le> 2 ^ n"
      using lt by simp
    from Suc.hyps(1)[OF m le rec]
    obtain p where p: "i + 1 \<le> p" "p < 2 ^ n"
      "\<forall>j. i + 1 \<le> j \<and> j < p \<longrightarrow> passed k (entries_sa hm ! ?pos j)"
      "holds k (entries_sa hm ! ?pos p)" "val (entries_sa hm ! ?pos p) = Ptr v"
      by auto
    have "\<forall>j. i \<le> j \<and> j < p \<longrightarrow> passed k (entries_sa hm ! ?pos j)"
    proof (intro allI impI)
      fix j assume "i \<le> j \<and> j < p"
      then show "passed k (entries_sa hm ! ?pos j)"
        using p(3) pass by (cases "j = i") (simp_all add: e_def)
    qed
    with p show ?thesis
      by (intro exI[of _ p]) simp
  qed
qed

lemma get_sa_preserved:
  assumes c: "cap hm = 2 ^ n" "n < 64" and len: "length (entries_sa hm) = 2 ^ n"
    and g: "hashmap_get_sa hm k = Inr (Ptr v)"
    and c': "cap hm' = cap hm"
    and t: "touches k (entries_sa hm) (entries_sa hm')"
  shows "hashmap_get_sa hm' k = Inr (Ptr v)"
proof -
  let ?pos = "\<lambda>j. (unat (fnv_hash_sa k) mod 2 ^ n + j) mod 2 ^ n"
  let ?es = "entries_sa hm"
  from get_sa_loop_result[OF c, of 0 k "fnv_hash_sa k" v] g
  obtain p where p: "p < 2 ^ n" "\<forall>j < p. passed k (?es ! ?pos j)"
    "holds k (?es ! ?pos p)" "val (?es ! ?pos p) = Ptr v"
    by (auto simp: hashmap_get_sa_def)
  have c2: "cap hm' = 2 ^ n"
    using c c' by simp
  have same: "entries_sa hm' ! ?pos p = ?es ! ?pos p"
    and before: "\<And>j. j < p \<Longrightarrow> passed k (entries_sa hm' ! ?pos j)"
  proof -
    from t consider "entries_sa hm' = ?es"
      | d x where "d < length ?es" "entries_sa hm' = ?es[d := x]" "\<not> holds k (?es ! d)" "passed k x"
      by (auto simp: touches_def)
    then have "entries_sa hm' ! ?pos p = ?es ! ?pos p \<and>
               (\<forall>j < p. passed k (entries_sa hm' ! ?pos j))"
    proof cases
      case 1
      with p show ?thesis by simp
    next
      case 2
      from 2(3) p(3) have "d \<noteq> ?pos p" by auto
      moreover have "passed k (?es[d := x] ! ?pos j)" if "j < p" for j
        using p(2) that 2(1,4) by (cases "?pos j = d") simp_all
      ultimately show ?thesis
        using 2(2) by simp
    qed
    then show "entries_sa hm' ! ?pos p = ?es ! ?pos p"
      and "\<And>j. j < p \<Longrightarrow> passed k (entries_sa hm' ! ?pos j)"
      by simp_all
  qed
  have "hashmap_get_sa hm' k = Inr (val (?es ! ?pos p))"
    using p(3) by (intro get_sa_found[OF c2 c(2) p(1) before same]) (simp_all add: holds_def)
  with p(4) show ?thesis
    by simp
qed

lemma touches_length: "touches k es es' \<Longrightarrow> length es' = length es"
  by (auto simp: touches_def)

lemma delete_sa_loop_touches:
  assumes c: "cap hm = 2 ^ n" "n < 64" and len: "length (entries_sa hm) = 2 ^ n"
    and ne: "k' \<noteq> k"
  shows "i \<le> 2 ^ n \<Longrightarrow>
     hashmap_delete_sa_loop hm k' (h AND (cap hm - 1)) i = Inr hm' \<Longrightarrow>
     cap hm' = cap hm \<and> touches k (entries_sa hm) (entries_sa hm')"
proof (induction "2 ^ n - i" arbitrary: i)
  case 0
  then have "i = 2 ^ n" by simp
  with 0 show ?case
    by (simp add: delete_sa_loop_exit[OF c] touches_def)
next
  case (Suc m)
  let ?pos = "\<lambda>j. (unat h mod 2 ^ n + j) mod 2 ^ n"
  from Suc have lt: "i < 2 ^ n" by simp
  define e where "e = entries_sa hm ! ?pos i"
  note st = delete_sa_loop_step[OF c lt, of k' h, unfolded Let_def, folded e_def]
  note g = Suc.prems(2)[unfolded st]
  have m: "m = 2 ^ n - (i + 1)"
    using Suc.hyps(2) by simp
  have le: "i + 1 \<le> 2 ^ n"
    using lt by simp
  have pl: "?pos i < length (entries_sa hm)"
    by (simp add: len)
  show ?case
  proof (cases "used e = 0")
    case True
    with g show ?thesis
      by (simp add: touches_def)
  next
    case False
    note u = this
    show ?thesis
    proof (cases "deleted e = 0")
      case False
      with g u have "hashmap_delete_sa_loop hm k' (h AND (cap hm - 1)) (i + 1) = Inr hm'"
        by simp
      from Suc.hyps(1)[OF m le this] show ?thesis .
    next
      case True
      from g u True obtain s where s: "key e = Ptr s"
        by (cases "key e") auto
      show ?thesis
      proof (cases "s = k'")
        case False
        with g u True s have "hashmap_delete_sa_loop hm k' (h AND (cap hm - 1)) (i + 1) = Inr hm'"
          by simp
        from Suc.hyps(1)[OF m le this] show ?thesis .
      next
        case True
        let ?x = "e\<lparr>key := Null, val := Null, deleted := 1\<rparr>"
        from g u \<open>deleted e = 0\<close> s True
        have hm': "hm' = hm\<lparr>entries_sa := (entries_sa hm)[?pos i := ?x]\<rparr>"
          by simp
        have "\<not> holds k (entries_sa hm ! ?pos i)"
          using s True ne by (simp add: holds_def e_def[symmetric])
        moreover have "passed k ?x"
          using u by (simp add: passed_def)
        ultimately have "touches k (entries_sa hm) (entries_sa hm')"
          unfolding touches_def hm' using pl by auto
        then show ?thesis
          by (simp add: hm')
      qed
    qed
  qed
qed

lemma set_sa_loop_touches:
  assumes c: "cap hm = 2 ^ n" "n < 64" and len: "length (entries_sa hm) = 2 ^ n"
    and ne: "k' \<noteq> k"
  shows "i \<le> 2 ^ n \<Longrightarrow>
     (0 \<le> ft \<Longrightarrow> nat ft < 2 ^ n \<and> deleted (entries_sa hm ! nat ft) \<noteq> 0) \<Longrightarrow>
     hashmap_set_sa_loop hm k' v' True True (h AND (cap hm - 1)) ft i = Inr (hm', r) \<Longrightarrow>
     cap hm' = cap hm \<and> touches k (entries_sa hm) (entries_sa hm')"
proof (induction "2 ^ n - i" arbitrary: i ft)
  case 0
  then have "i = 2 ^ n" by simp
  with 0 show ?case
    by (simp add: set_sa_loop_exit[OF c] touches_def)
next
  case (Suc m)
  let ?pos = "\<lambda>j. (unat h mod 2 ^ n + j) mod 2 ^ n"
  let ?es = "entries_sa hm"
  from Suc have lt: "i < 2 ^ n" by simp
  define e where "e = ?es ! ?pos i"
  note st = set_sa_loop_step[OF c lt, of k' v' True True h ft, unfolded Let_def, folded e_def]
  note g = Suc.prems(3)[unfolded st]
  have m: "m = 2 ^ n - (i + 1)"
    using Suc.hyps(2) by simp
  have le: "i + 1 \<le> 2 ^ n"
    using lt by simp
  have pl: "?pos i < length ?es"
    by (simp add: len)
  show ?case
  proof (cases "used e = 0")
    case True
    define d where "d = (if 0 \<le> ft then nat ft else ?pos i)"
    let ?x = "(?es ! d)\<lparr>key := Ptr k', val := Ptr v', used := 1, deleted := 0\<rparr>"
    from g True have hm': "hm' = hm\<lparr>entries_sa := ?es[d := ?x]\<rparr>"
      by (auto simp: strdup_def d_def)
    have dl: "d < length ?es"
      using Suc.prems(2) pl by (auto simp: d_def len)
    have "\<not> holds k (?es ! d)"
      using Suc.prems(2) True by (auto simp: d_def holds_def e_def)
    moreover have "passed k ?x"
      using ne by (simp add: passed_def)
    ultimately have "touches k ?es (entries_sa hm')"
      unfolding touches_def hm' using dl by auto
    then show ?thesis
      by (simp add: hm')
  next
    case False
    note u = this
    show ?thesis
    proof (cases "deleted e = 0")
      case False
      with g u have rec: "hashmap_set_sa_loop hm k' v' True True (h AND (cap hm - 1))
            (if ft < 0 then int (?pos i) else ft) (i + 1) = Inr (hm', r)"
        by simp
      show ?thesis
      proof (rule Suc.hyps(1)[OF m le _ rec])
        assume "0 \<le> (if ft < 0 then int (?pos i) else ft)"
        show "nat (if ft < 0 then int (?pos i) else ft) < 2 ^ n \<and>
              deleted (?es ! nat (if ft < 0 then int (?pos i) else ft)) \<noteq> 0"
          using Suc.prems(2) False by (auto simp: e_def)
      qed
    next
      case True
      from g u True obtain s where s: "key e = Ptr s"
        by (cases "key e") auto
      show ?thesis
      proof (cases "s = k'")
        case False
        with g u True s have rec: "hashmap_set_sa_loop hm k' v' True True (h AND (cap hm - 1))
              ft (i + 1) = Inr (hm', r)"
          by simp
        show ?thesis
          by (rule Suc.hyps(1)[OF m le _ rec]) (use Suc.prems(2) in simp)
      next
        case True
        let ?x = "e\<lparr>val := Ptr v'\<rparr>"
        from g u \<open>deleted e = 0\<close> s True
        have hm': "hm' = hm\<lparr>entries_sa := ?es[?pos i := ?x]\<rparr>"
          by (simp add: strdup_def)
        have "\<not> holds k (?es ! ?pos i)"
          using s True ne by (simp add: holds_def e_def[symmetric])
        moreover have "passed k ?x"
          using u s True ne \<open>deleted e = 0\<close> by (simp add: passed_def)
        ultimately have "touches k ?es (entries_sa hm')"
          unfolding touches_def hm' using pl by auto
        then show ?thesis
          by (simp add: hm')
      qed
    qed
  qed
qed

lemma run_sa_preserves_get:
  assumes n: "n < 64"
  shows "cap hm = 2 ^ n \<Longrightarrow> length (entries_sa hm) = 2 ^ n \<Longrightarrow>
     hashmap_get_sa hm k = Inr (Ptr v) \<Longrightarrow> \<forall>x \<in> set ops. quiet k x \<Longrightarrow>
     run_sa hm ops = Inr hm' \<Longrightarrow> hashmap_get_sa hm' k = Inr (Ptr v)"
proof (induction ops arbitrary: hm)
  case Nil
  then show ?case by simp
next
  case (Cons x ops)
  show ?case
  proof (cases x)
    case (Set k' v' kok vok)
    with Cons.prems(4) have q: "k' \<noteq> k" "kok" "vok" by simp_all
    from Cons.prems(5) Set obtain hm1 r where
      s: "hashmap_set_sa hm k' v' True True = Inr (hm1, r)" and rest: "run_sa hm1 ops = Inr hm'"
      using q by (auto split: sum.splits)
    have t: "cap hm1 = cap hm \<and> touches k (entries_sa hm) (entries_sa hm1)"
      by (rule set_sa_loop_touches[OF Cons.prems(1) n Cons.prems(2) q(1), where i = 0 and ft = "-1"])
         (use s in \<open>simp_all add: hashmap_set_sa_def\<close>)
    then have g1: "hashmap_get_sa hm1 k = Inr (Ptr v)"
      using get_sa_preserved[OF Cons.prems(1) n Cons.prems(2,3)] by simp
    show ?thesis
      using t touches_length[of k "entries_sa hm" "entries_sa hm1"] Cons.prems
      by (intro Cons.IH[OF _ _ g1 _ rest]) simp_all
  next
    case (Del k')
    with Cons.prems(4) have q: "k' \<noteq> k" by simp
    from Cons.prems(5) Del obtain hm1 where
      s: "hashmap_delete_sa hm k' = Inr hm1" and rest: "run_sa hm1 ops = Inr hm'"
      by (auto split: sum.splits)
    have t: "cap hm1 = cap hm \<and> touches k (entries_sa hm) (entries_sa hm1)"
      by (rule delete_sa_loop_touches[OF Cons.prems(1) n Cons.prems(2) q, where i = 0])
         (use s in \<open>simp_all add: hashmap_delete_sa_def\<close>)
    then have g1: "hashmap_get_sa hm1 k = Inr (Ptr v)"
      using get_sa_preserved[OF Cons.prems(1) n Cons.prems(2,3)] by simp
    show ?thesis
      using t touches_length[of k "entries_sa hm" "entries_sa hm1"] Cons.prems
      by (intro Cons.IH[OF _ _ g1 _ rest]) simp_all
  qed
qed

lemma get_loop_result:
  shows "i \<le> TABLE_SIZE \<Longrightarrow>
     hashmap_get_loop hm k (h AND of_nat (TABLE_SIZE - 1)) i = Inr (Ptr v) \<Longrightarrow>
     \<exists>p. i \<le> p \<and> p < TABLE_SIZE \<and>
         (\<forall>j. i \<le> j \<and> j < p \<longrightarrow>
            passed k (entries hm ! ((unat h mod TABLE_SIZE + j) mod TABLE_SIZE))) \<and>
         holds k (entries hm ! ((unat h mod TABLE_SIZE + p) mod TABLE_SIZE)) \<and>
         val (entries hm ! ((unat h mod TABLE_SIZE + p) mod TABLE_SIZE)) = Ptr v"
proof (induction "TABLE_SIZE - i" arbitrary: i)
  case 0
  then have "i = TABLE_SIZE" by simp
  with 0 show ?case
    by (simp add: get_loop_exit)
next
  case (Suc m)
  let ?pos = "\<lambda>j. (unat h mod TABLE_SIZE + j) mod TABLE_SIZE"
  from Suc have lt: "i < TABLE_SIZE" by simp
  define e where "e = entries hm ! ?pos i"
  note st = get_loop_step[OF lt, of hm k h, unfolded Let_def, folded e_def]
  note g = Suc.prems(2)[unfolded st]
  show ?case
  proof (cases "holds k e")
    case True
    then have "val e = Ptr v"
      using g by (simp add: holds_def)
    with True show ?thesis
      by (intro exI[of _ i]) (use lt in \<open>auto simp: e_def\<close>)
  next
    case False
    from g have u: "used e \<noteq> 0"
      by (auto split: if_splits)
    have "passed k e \<and> hashmap_get_loop hm k (h AND of_nat (TABLE_SIZE - 1)) (i + 1) = Inr (Ptr v)"
    proof (cases "deleted e = 0")
      case True
      with g u obtain s where s: "key e = Ptr s"
        by (cases "key e") auto
      with False u True have "s \<noteq> k"
        by (auto simp: holds_def)
      with g u True s show ?thesis
        by (simp add: passed_def)
    next
      case False
      with g u show ?thesis
        by (simp add: passed_def)
    qed
    then have pass: "passed k e"
      and rec: "hashmap_get_loop hm k (h AND of_nat (TABLE_SIZE - 1)) (i + 1) = Inr (Ptr v)"
      by simp_all
    have m: "m = TABLE_SIZE - (i + 1)"
      using Suc.hyps(2) by simp
    have le: "i + 1 \<le> TABLE_SIZE"
      using lt by simp
    from Suc.hyps(1)[OF m le rec]
    obtain p where p: "i + 1 \<le> p" "p < TABLE_SIZE"
      "\<forall>j. i + 1 \<le> j \<and> j < p \<longrightarrow> passed k (entries hm ! ?pos j)"
      "holds k (entries hm ! ?pos p)" "val (entries hm ! ?pos p) = Ptr v"
      by auto
    have "\<forall>j. i \<le> j \<and> j < p \<longrightarrow> passed k (entries hm ! ?pos j)"
    proof (intro allI impI)
      fix j assume "i \<le> j \<and> j < p"
      then show "passed k (entries hm ! ?pos j)"
        using p(3) pass by (cases "j = i") (simp_all add: e_def)
    qed
    with p show ?thesis
      by (intro exI[of _ p]) simp
  qed
qed

lemma get_preserved:
  assumes len: "length (entries hm) = TABLE_SIZE"
    and g: "hashmap_get hm k = Inr (Ptr v)"
    and t: "touches k (entries hm) (entries hm')"
  shows "hashmap_get hm' k = Inr (Ptr v)"
proof -
  let ?pos = "\<lambda>j. (unat (fnv_hash k) mod TABLE_SIZE + j) mod TABLE_SIZE"
  let ?es = "entries hm"
  from get_loop_result[of 0 hm k "fnv_hash k" v] g
  obtain p where p: "p < TABLE_SIZE" "\<forall>j < p. passed k (?es ! ?pos j)"
    "holds k (?es ! ?pos p)" "val (?es ! ?pos p) = Ptr v"
    by (auto simp: hashmap_get_def)
  from t consider "entries hm' = ?es"
    | d x where "d < length ?es" "entries hm' = ?es[d := x]" "\<not> holds k (?es ! d)" "passed k x"
    by (auto simp: touches_def)
  then have "entries hm' ! ?pos p = ?es ! ?pos p \<and> (\<forall>j < p. passed k (entries hm' ! ?pos j))"
  proof cases
    case 1
    with p show ?thesis by simp
  next
    case 2
    from 2(3) p(3) have "d \<noteq> ?pos p" by auto
    moreover have "passed k (?es[d := x] ! ?pos j)" if "j < p" for j
      using p(2) that 2(1,4) by (cases "?pos j = d") simp_all
    ultimately show ?thesis
      using 2(2) by simp
  qed
  then have same: "entries hm' ! ?pos p = ?es ! ?pos p"
    and before: "\<And>j. j < p \<Longrightarrow> passed k (entries hm' ! ?pos j)"
    by simp_all
  have "hashmap_get hm' k = Inr (val (?es ! ?pos p))"
    using p(3) by (intro get_found[OF p(1) before same]) (simp_all add: holds_def)
  with p(4) show ?thesis
    by simp
qed

lemma delete_loop_touches:
  assumes len: "length (entries hm) = TABLE_SIZE" and ne: "k' \<noteq> k"
  shows "i \<le> TABLE_SIZE \<Longrightarrow>
     hashmap_delete_loop hm k' (h AND of_nat (TABLE_SIZE - 1)) i = Inr hm' \<Longrightarrow>
     touches k (entries hm) (entries hm')"
proof (induction "TABLE_SIZE - i" arbitrary: i)
  case 0
  then have "i = TABLE_SIZE" by simp
  with 0 show ?case
    by (simp add: delete_loop_exit touches_def)
next
  case (Suc m)
  let ?pos = "\<lambda>j. (unat h mod TABLE_SIZE + j) mod TABLE_SIZE"
  from Suc have lt: "i < TABLE_SIZE" by simp
  define e where "e = entries hm ! ?pos i"
  note st = delete_loop_step[OF lt, of hm k' h, unfolded Let_def, folded e_def]
  note g = Suc.prems(2)[unfolded st]
  have m: "m = TABLE_SIZE - (i + 1)"
    using Suc.hyps(2) by simp
  have le: "i + 1 \<le> TABLE_SIZE"
    using lt by simp
  have pl: "?pos i < length (entries hm)"
    using lt by (simp add: len)
  show ?case
  proof (cases "used e = 0")
    case True
    with g show ?thesis
      by (simp add: touches_def)
  next
    case False
    note u = this
    from g u obtain s where s: "key e = Ptr s"
      by (cases "key e") auto
    show ?thesis
    proof (cases "s = k'")
      case False
      with g u s have "hashmap_delete_loop hm k' (h AND of_nat (TABLE_SIZE - 1)) (i + 1) = Inr hm'"
        by simp
      from Suc.hyps(1)[OF m le this] show ?thesis .
    next
      case True
      let ?x = "e\<lparr>key := freed (key e), val := freed (val e), deleted := 1\<rparr>"
      from g u s True have hm': "hm' = hm\<lparr>entries := (entries hm)[?pos i := ?x]\<rparr>"
        by simp
      have "\<not> holds k (entries hm ! ?pos i)"
        using s True ne by (simp add: holds_def e_def[symmetric])
      moreover have "passed k ?x"
        using u by (simp add: passed_def)
      ultimately show ?thesis
        unfolding touches_def hm' using pl by auto
    qed
  qed
qed

lemma set_loop_touches:
  assumes len: "length (entries hm) = TABLE_SIZE" and ne: "k' \<noteq> k"
  shows "i \<le> TABLE_SIZE \<Longrightarrow>
     hashmap_set_loop hm k' v' True True (h AND of_nat (TABLE_SIZE - 1)) i = Inr hm' \<Longrightarrow>
     touches k (entries hm) (entries hm')"
proof (induction "TABLE_SIZE - i" arbitrary: i)
  case 0
  then have "i = TABLE_SIZE" by simp
  with 0 show ?case
    by (simp add: set_loop_exit touches_def)
next
  case (Suc m)
  let ?pos = "\<lambda>j. (unat h mod TABLE_SIZE + j) mod TABLE_SIZE"
  let ?es = "entries hm"
  from Suc have lt: "i < TABLE_SIZE" by simp
  define e where "e = ?es ! ?pos i"
  note st = set_loop_step[OF lt, of hm k' v' True True h, unfolded Let_def, folded e_def]
  note g = Suc.prems(2)[unfolded st]
  have m: "m = TABLE_SIZE - (i + 1)"
    using Suc.hyps(2) by simp
  have le: "i + 1 \<le> TABLE_SIZE"
    using lt by simp
  have pl: "?pos i < length ?es"
    using lt by (simp add: len)
  show ?case
  proof (cases "used e = 0 \<or> deleted e \<noteq> 0")
    case True
    let ?x = "e\<lparr>key := Ptr k', val := Ptr v', used := 1, deleted := 0\<rparr>"
    from g True have hm': "hm' = hm\<lparr>entries := ?es[?pos i := ?x]\<rparr>"
      by (auto simp: strdup_def)
    have "\<not> holds k (?es ! ?pos i)"
      using True by (auto simp: holds_def e_def[symmetric])
    moreover have "passed k ?x"
      using ne by (simp add: passed_def)
    ultimately show ?thesis
      unfolding touches_def hm' using pl by auto
  next
    case False
    then have u: "used e \<noteq> 0" "deleted e = 0" by simp_all
    from g u obtain s where s: "key e = Ptr s"
      by (cases "key e") auto
    show ?thesis
    proof (cases "s = k'")
      case False
      with g u s have "hashmap_set_loop hm k' v' True True (h AND of_nat (TABLE_SIZE - 1)) (i + 1)
                         = Inr hm'"
        by simp
      from Suc.hyps(1)[OF m le this] show ?thesis .
    next
      case True
      let ?x = "e\<lparr>val := Ptr v'\<rparr>"
      from g u s True have hm': "hm' = hm\<lparr>entries := ?es[?pos i := ?x]\<rparr>"
        by (simp add: strdup_def)
      have "\<not> holds k (?es ! ?pos i)"
        using s True ne by (simp add: holds_def e_def[symmetric])
      moreover have "passed k ?x"
        using u s True ne by (simp add: passed_def)
      ultimately show ?thesis
        unfolding touches_def hm' using pl by auto
    qed
  qed
qed

lemma run_preserves_get:
  "length (entries hm) = TABLE_SIZE \<Longrightarrow>
     hashmap_get hm k = Inr (Ptr v) \<Longrightarrow> \<forall>x \<in> set ops. quiet k x \<Longrightarrow>
     run hm ops = Inr hm' \<Longrightarrow> hashmap_get hm' k = Inr (Ptr v)"
proof (induction ops arbitrary: hm)
  case Nil
  then show ?case by simp
next
  case (Cons x ops)
  show ?case
  proof (cases x)
    case (Set k' v' kok vok)
    with Cons.prems(3) have q: "k' \<noteq> k" "kok" "vok" by simp_all
    from Cons.prems(4) Set obtain hm1 where
      s: "hashmap_set hm k' v' True True = Inr hm1" and rest: "run hm1 ops = Inr hm'"
      using q by (auto split: sum.splits)
    have t: "touches k (entries hm) (entries hm1)"
      by (rule set_loop_touches[OF Cons.prems(1) q(1), where i = 0])
         (use s in \<open>simp_all add: hashmap_set_def\<close>)
    then have g1: "hashmap_get hm1 k = Inr (Ptr v)"
      using get_preserved[OF Cons.prems(1,2)] by simp
    show ?thesis
      using touches_length[OF t] Cons.prems
      by (intro Cons.IH[OF _ g1 _ rest]) simp_all
  next
    case (Del k')
    with Cons.prems(3) have q: "k' \<noteq> k" by simp
    from Cons.prems(4) Del obtain hm1 where
      s: "hashmap_delete hm k' = Inr hm1" and rest: "run hm1 ops = Inr hm'"
      by (auto split: sum.splits)
    have t: "touches k (entries hm) (entries hm1)"
      by (rule delete_loop_touches[OF Cons.prems(1) q, where i = 0])
         (use s in \<open>simp_all add: hashmap_delete_def\<close>)
    then have g1: "hashmap_get hm1 k = Inr (Ptr v)"
      using get_preserved[OF Cons.prems(1,2)] by simp
    show ?thesis
      using touches_length[OF t] Cons.prems
      by (intro Cons.IH[OF _ g1 _ rest]) simp_all
  qed
qed

section \<open>Failed copies in the standalone table, and requests the handler ignores\<close>

text \<open>
  The standalone set returns 0 or -1. With -1 the table is as it was, or one slot has
  been reset to the zero entry; a failed copy of the value always gives -1. With 0 one
  slot has been written and it is Occupied with the key and the value.
\<close>

lemma entry_overwritten:
  "(e :: kv_entry)\<lparr>key := a, val := b, used := c, deleted := d\<rparr>
     = \<lparr>key = a, val = b, used = c, deleted = d\<rparr>"
  by (cases e) simp

lemma set_sa_loop_outcome:
  assumes c: "cap hm = 2 ^ n" "n < 64" and len: "length (entries_sa hm) = 2 ^ n"
  shows "i \<le> 2 ^ n \<Longrightarrow> (0 \<le> ft \<Longrightarrow> nat ft < 2 ^ n) \<Longrightarrow>
     hashmap_set_sa_loop hm k v kok vok (h AND (cap hm - 1)) ft i = Inr (hm', r) \<Longrightarrow>
     (r = -1 \<and> (\<not> vok \<or> \<not> kok \<or> hm' = hm) \<and>
        (hm' = hm \<or> (\<exists>d < 2 ^ n. hm' = hm\<lparr>entries_sa := (entries_sa hm)[d := zero_entry]\<rparr>))) \<or>
     (r = 0 \<and> vok \<and>
        (\<exists>d < 2 ^ n. \<exists>x. hm' = hm\<lparr>entries_sa := (entries_sa hm)[d := x]\<rparr> \<and>
           key x = Ptr k \<and> val x = Ptr v \<and> state_of x = Occupied))"
proof (induction "2 ^ n - i" arbitrary: i ft)
  case 0
  then have "i = 2 ^ n" by simp
  with 0 show ?case
    by (simp add: set_sa_loop_exit[OF c])
next
  case (Suc m)
  let ?pos = "\<lambda>j. (unat h mod 2 ^ n + j) mod 2 ^ n"
  let ?es = "entries_sa hm"
  from Suc have lt: "i < 2 ^ n" by simp
  define e where "e = ?es ! ?pos i"
  note st = set_sa_loop_step[OF c lt, of k v kok vok h ft, unfolded Let_def, folded e_def]
  note g = Suc.prems(3)[unfolded st]
  have m: "m = 2 ^ n - (i + 1)"
    using Suc.hyps(2) by simp
  have le: "i + 1 \<le> 2 ^ n"
    using lt by simp
  have pl: "?pos i < 2 ^ n"
    by simp
  show ?case
  proof (cases "used e = 0")
    case True
    define d where "d = (if 0 \<le> ft then nat ft else ?pos i)"
    have dl: "d < 2 ^ n"
      using Suc.prems(2) pl by (auto simp: d_def)
    show ?thesis
    proof (cases "kok \<and> vok")
      case True
      let ?x = "(?es ! d)\<lparr>key := Ptr k, val := Ptr v, used := 1, deleted := 0\<rparr>"
      from g \<open>used e = 0\<close> True have "r = 0" "hm' = hm\<lparr>entries_sa := ?es[d := ?x]\<rparr>"
        by (auto simp: strdup_def d_def)
      moreover have "key ?x = Ptr k" "val ?x = Ptr v" "state_of ?x = Occupied"
        by (simp_all add: state_of_def)
      ultimately show ?thesis
        using True dl by (intro disjI2) blast
    next
      case False
      from g \<open>used e = 0\<close> False have "r = -1" "hm' = hm\<lparr>entries_sa := ?es[d := zero_entry]\<rparr>"
        by (auto simp: strdup_def d_def zero_entry_def entry_overwritten)
      with False dl show ?thesis
        by (intro disjI1) auto
    qed
  next
    case False
    note u = this
    show ?thesis
    proof (cases "deleted e = 0")
      case False
      with g u have rec: "hashmap_set_sa_loop hm k v kok vok (h AND (cap hm - 1))
            (if ft < 0 then int (?pos i) else ft) (i + 1) = Inr (hm', r)"
        by simp
      show ?thesis
        by (rule Suc.hyps(1)[OF m le _ rec]) (use Suc.prems(2) pl in auto)
    next
      case True
      from g u True obtain s where s: "key e = Ptr s"
        by (cases "key e") auto
      show ?thesis
      proof (cases "s = k")
        case False
        with g u True s have rec: "hashmap_set_sa_loop hm k v kok vok (h AND (cap hm - 1))
              ft (i + 1) = Inr (hm', r)"
          by simp
        show ?thesis
          by (rule Suc.hyps(1)[OF m le _ rec]) (use Suc.prems(2) in simp)
      next
        case True
        show ?thesis
        proof (cases vok)
          case True
          let ?x = "e\<lparr>val := Ptr v\<rparr>"
          from g u \<open>deleted e = 0\<close> s \<open>s = k\<close> True
          have "r = 0" "hm' = hm\<lparr>entries_sa := ?es[?pos i := ?x]\<rparr>"
            by (simp_all add: strdup_def)
          moreover have "key ?x = Ptr k" "val ?x = Ptr v" "state_of ?x = Occupied"
            using u \<open>deleted e = 0\<close> s \<open>s = k\<close> by (simp_all add: state_of_def)
          ultimately show ?thesis
            using True pl by (intro disjI2) blast
        next
          case False
          from g u \<open>deleted e = 0\<close> s \<open>s = k\<close> False have "r = -1" "hm' = hm"
            by (simp_all add: strdup_def)
          with False show ?thesis
            by simp
        qed
      qed
    qed
  qed
qed

lemma hashmap_set_sa_outcome:
  assumes c: "cap hm = 2 ^ n" "n < 64" and len: "length (entries_sa hm) = 2 ^ n"
    and s: "hashmap_set_sa hm k v kok vok = Inr (hm', r)"
  shows "(r = -1 \<and> (\<not> vok \<or> \<not> kok \<or> hm' = hm) \<and>
        (hm' = hm \<or> (\<exists>d < 2 ^ n. hm' = hm\<lparr>entries_sa := (entries_sa hm)[d := zero_entry]\<rparr>))) \<or>
     (r = 0 \<and> vok \<and>
        (\<exists>d < 2 ^ n. \<exists>x. hm' = hm\<lparr>entries_sa := (entries_sa hm)[d := x]\<rparr> \<and>
           key x = Ptr k \<and> val x = Ptr v \<and> state_of x = Occupied))"
  by (rule set_sa_loop_outcome[OF c len, where i = 0 and ft = "-1" and h = "fnv_hash_sa k"])
     (use s in \<open>simp_all add: hashmap_set_sa_def\<close>)

text \<open>
  A body with a first token that is no command, or a command without its key, or a set
  without its value, changes nothing and has no reply.
\<close>

lemma dispatch_ignores:
  assumes "strtok msg = Some (cmd, r1)"
    and "cmd \<notin> {''get'', ''set'', ''del''} \<or> strtok r1 = None \<or>
         (cmd = ''set'' \<and> (\<exists>k r2. strtok r1 = Some (k, r2) \<and> strtok r2 = None))"
  shows "handle_pkt_dispatch kok vok msg hm = Inr (Null, hm)"
  using assms unfolding handle_pkt_dispatch_def by auto

lemma unknown_command_ignored:
  "handle_pkt kok vok (request ''3:xyz'') hm
     = Inr (\<lparr>pending = [], peer_closed = True, written = []\<rparr>, hm)"
  by (simp add: eval_pkt)

section \<open>The standalone table while copies succeed\<close>

text \<open>
  \<^verbatim>\<open>next_pow2\<close>, when it returns, returns a power of two, so the capacity of a
  created table is one.
\<close>

lemma double_pow2:
  assumes "n < 64"
  shows "push_bit 1 ((2::64 word) ^ n) = (if n = 63 then 0 else 2 ^ Suc n)"
proof (cases "n = 63")
  case True
  then show ?thesis by (simp add: push_bit_eq_mult)
next
  case False
  then show ?thesis by (simp add: push_bit_eq_mult)
qed

lemma next_pow2_loop_pow2:
  assumes a: "next_pow2_loop p x = Some q"
    and i: "(\<exists>n < 64. p = 2 ^ n) \<or> (p = 0 \<and> x \<noteq> 0)"
  shows "\<exists>n < 64. q = 2 ^ n"
proof -
  have "(case (p, x) of (p, x) \<Rightarrow> \<lambda>q.
          ((\<exists>n < 64. p = 2 ^ n) \<or> (p = 0 \<and> x \<noteq> 0)) \<longrightarrow> (\<exists>n < 64. q = 2 ^ n)) q"
  proof (rule next_pow2_loop.raw_induct[where xa = "(p, x)" and y = q])
    fix f :: "64 word \<Rightarrow> 64 word \<Rightarrow> 64 word option" and p x q :: "64 word"
    assume ih: "\<And>p x q. f p x = Some q \<Longrightarrow>
        ((\<exists>n < 64. p = 2 ^ n) \<or> (p = 0 \<and> x \<noteq> 0)) \<longrightarrow> (\<exists>n < 64. q = 2 ^ n)"
      and b: "(if p < x then f (push_bit 1 p) x else Some p) = Some q"
    show "((\<exists>n < 64. p = 2 ^ n) \<or> (p = 0 \<and> x \<noteq> 0)) \<longrightarrow> (\<exists>n < 64. q = 2 ^ n)"
    proof
      assume inv: "(\<exists>n < 64. p = 2 ^ n) \<or> (p = 0 \<and> x \<noteq> 0)"
      show "\<exists>n < 64. q = 2 ^ n"
      proof (cases "p < x")
        case False
        with b have "q = p" by simp
        moreover from False inv have "\<exists>n < 64. p = 2 ^ n"
          by (auto simp: word_neq_0_conv)
        ultimately show ?thesis by simp
      next
        case True
        with b have r: "f (push_bit 1 p) x = Some q" by simp
        from True have x: "x \<noteq> 0" by auto
        have "(\<exists>n < 64. push_bit 1 p = 2 ^ n) \<or> (push_bit 1 p = 0 \<and> x \<noteq> 0)"
        proof (cases "p = 0")
          case True
          with x show ?thesis by simp
        next
          case False
          with inv obtain n where n: "n < 64" "p = 2 ^ n" by auto
          show ?thesis
          proof (cases "n = 63")
            case True
            with n x show ?thesis by (simp add: double_pow2)
          next
            case False
            with n have "Suc n < 64" "push_bit 1 p = 2 ^ Suc n"
              by (simp_all add: double_pow2)
            then show ?thesis by blast
          qed
        qed
        with ih[OF r] show ?thesis by blast
      qed
    qed
  next
    show "(case (p, x) of (p, x) \<Rightarrow> next_pow2_loop p x) = Some q"
      using a by simp
  qed
  with i show ?thesis
    by auto
qed

lemma hashmap_create_sa_pow2:
  assumes "hashmap_create_sa mok cok expected_items = Some (Some hm)"
  shows "\<exists>n < 64. cap hm = 2 ^ n \<and> length (entries_sa hm) = 2 ^ n"
proof -
  from assms obtain c where c: "next_pow2 (expected_items * 2 + 1) = Some c"
    and hm: "hm = \<lparr>entries_sa = replicate (unat c) zero_entry, cap = c\<rparr>"
    by (auto simp: hashmap_create_sa_def split: option.splits if_splits)
  from c have "\<exists>n < 64. c = 2 ^ n"
    unfolding next_pow2_def
    by (rule next_pow2_loop_pow2) (auto intro: exI[of _ 0])
  then obtain n where "n < 64" "c = 2 ^ n" by blast
  then show ?thesis
    by (intro exI[of _ n]) (simp add: hm unat_pow2_64)
qed

text \<open>
  The invariant under the writes that set and delete make: a slot that is unused or
  deleted, at or before the first unused slot of the key's probe sequence, becomes
  Occupied with the key; the value of a slot changes; the slot holding a key becomes
  a Tombstone.
\<close>

lemma home_less: "home n s p < 2 ^ n"
  by (simp add: home_def)

lemma passed_used: "passed k e \<Longrightarrow> used e \<noteq> 0"
  by (simp add: passed_def)

text \<open>A key that is held somewhere cannot hide behind an Empty slot of its own probe sequence.\<close>

lemma sound_not_behind_empty:
  assumes s: "sound n es" and q: "used (es ! home n k q) = 0"
    and before: "\<And>j. j < q \<Longrightarrow> passed k (es ! home n k j)"
    and x: "x < 2 ^ n"
  shows "\<not> holds k (es ! x)"
proof
  assume h: "holds k (es ! x)"
  with s x obtain p where p: "p < 2 ^ n" "home n k p = x" "\<forall>j < p. used (es ! home n k j) \<noteq> 0"
    unfolding sound_def by blast
  consider "p < q" | "p = q" | "q < p"
    by linarith
  then show False
  proof cases
    case 1
    from before[OF 1] h p(2) show False
      by (simp add: holds_not_passed)
  next
    case 2
    with q h p(2) show False
      by (simp add: holds_def)
  next
    case 3
    with p(3) q show False
      by simp
  qed
qed

lemma sound_not_when_all_passed:
  assumes s: "sound n es" and all: "\<And>j. j < 2 ^ n \<Longrightarrow> passed k (es ! home n k j)"
    and x: "x < 2 ^ n"
  shows "\<not> holds k (es ! x)"
proof
  assume h: "holds k (es ! x)"
  with s x obtain p where p: "p < 2 ^ n" "home n k p = x"
    unfolding sound_def by blast
  from all[OF p(1)] h p(2) show False
    by (simp add: holds_not_passed)
qed

lemma sound_same_flags:
  assumes s: "sound n es" and len: "length es' = length es"
    and same: "\<And>x. x < 2 ^ n \<Longrightarrow>
       used (es' ! x) = used (es ! x) \<and> deleted (es' ! x) = deleted (es ! x) \<and>
       key (es' ! x) = key (es ! x)"
  shows "sound n es'"
proof -
  have h: "holds t (es' ! x) = holds t (es ! x)" if "x < 2 ^ n" for t x
    using same[OF that] by (simp add: holds_def)
  have u: "used (es' ! home n t j) = used (es ! home n t j)" for t j
    using same[OF home_less] by simp
  show ?thesis
    using s len unfolding sound_def
    by (simp add: h u same)
qed

lemma sound_insert:
  assumes s: "sound n es" and p: "p \<le> q" "q < 2 ^ n"
    and q: "used (es ! home n k q) = 0"
    and before: "\<And>j. j < q \<Longrightarrow> passed k (es ! home n k j)"
    and free: "used (es ! home n k p) = 0 \<or> deleted (es ! home n k p) \<noteq> 0"
  shows "sound n (es[home n k p := \<lparr>key = Ptr k, val = Ptr v, used = 1, deleted = 0\<rparr>])"
proof -
  let ?d = "home n k p"
  let ?x = "\<lparr>key = Ptr k, val = Ptr v, used = 1, deleted = 0\<rparr>"
  let ?es' = "es[?d := ?x]"
  from s have len: "length es = 2 ^ n"
    by (simp add: sound_def)
  have dl: "?d < length es"
    by (simp add: len home_less)
  have at: "?es' ! ?d = ?x"
    using dl by simp
  have off: "?es' ! y = es ! y" if "y \<noteq> ?d" for y
    using that by simp
  have nh: "\<not> holds t (es ! ?d)" for t
    using free by (auto simp: holds_def)
  have hx: "holds t ?x \<longleftrightarrow> t = k" for t
    by (auto simp: holds_def)
  have used': "used (?es' ! y) \<noteq> 0" if "used (es ! y) \<noteq> 0" for y
    using that at off by (cases "y = ?d") simp_all
  have nowhere: "\<not> holds k (es ! y)" if "y < 2 ^ n" for y
    using sound_not_behind_empty[OF s q before that] .
  have a: "\<forall>d < 2 ^ n. used (?es' ! d) \<noteq> 0 \<and> deleted (?es' ! d) = 0 \<longrightarrow> (\<exists>s. key (?es' ! d) = Ptr s)"
  proof (intro allI impI)
    fix d assume "d < 2 ^ n" "used (?es' ! d) \<noteq> 0 \<and> deleted (?es' ! d) = 0"
    then show "\<exists>s. key (?es' ! d) = Ptr s"
      using s at off unfolding sound_def by (cases "d = ?d") auto
  qed
  have b: "\<forall>d < 2 ^ n. \<forall>t. holds t (?es' ! d) \<longrightarrow>
         (\<exists>r < 2 ^ n. home n t r = d \<and> (\<forall>j < r. used (?es' ! home n t j) \<noteq> 0))"
  proof (intro allI impI)
    fix d t assume d: "d < 2 ^ n" and h: "holds t (?es' ! d)"
    show "\<exists>r < 2 ^ n. home n t r = d \<and> (\<forall>j < r. used (?es' ! home n t j) \<noteq> 0)"
    proof (cases "d = ?d")
      case True
      with h at have "t = k"
        by (simp add: hx)
      moreover have "\<forall>j < p. used (?es' ! home n k j) \<noteq> 0"
      proof (intro allI impI)
        fix j assume "j < p"
        with p(1) have "j < q" by simp
        from before[OF this] have "used (es ! home n k j) \<noteq> 0"
          by (rule passed_used)
        then show "used (?es' ! home n k j) \<noteq> 0"
          by (rule used')
      qed
      ultimately show ?thesis
        using True p by (intro exI[of _ p]) simp
    next
      case False
      with h off have "holds t (es ! d)"
        by simp
      with s d obtain r where r: "r < 2 ^ n" "home n t r = d" "\<forall>j < r. used (es ! home n t j) \<noteq> 0"
        unfolding sound_def by blast
      have "\<forall>j < r. used (?es' ! home n t j) \<noteq> 0"
      proof (intro allI impI)
        fix j assume "j < r"
        with r(3) have "used (es ! home n t j) \<noteq> 0" by simp
        then show "used (?es' ! home n t j) \<noteq> 0"
          by (rule used')
      qed
      with r show ?thesis
        by (intro exI[of _ r]) simp
    qed
  qed
  have c: "\<forall>d < 2 ^ n. \<forall>d' < 2 ^ n. \<forall>t. holds t (?es' ! d) \<and> holds t (?es' ! d') \<longrightarrow> d = d'"
  proof (intro allI impI)
    fix d d' t assume d: "d < 2 ^ n" "d' < 2 ^ n" and h: "holds t (?es' ! d) \<and> holds t (?es' ! d')"
    show "d = d'"
    proof (cases "d = ?d")
      case True
      with h at have t: "t = k" by (simp add: hx)
      show ?thesis
      proof (rule ccontr)
        assume "d \<noteq> d'"
        with True h off[of d'] have "holds k (es ! d')"
          by (simp add: t)
        with nowhere[OF d(2)] show False by simp
      qed
    next
      case False
      note dd = this
      show ?thesis
      proof (cases "d' = ?d")
        case True
        with h at have t: "t = k" by (simp add: hx)
        from dd h off[of d] have "holds k (es ! d)"
          by (simp add: t)
        with nowhere[OF d(1)] show ?thesis by simp
      next
        case False
        with dd h off have "holds t (es ! d) \<and> holds t (es ! d')"
          by simp
        with s d show ?thesis
          unfolding sound_def by blast
      qed
    qed
  qed
  show ?thesis
    unfolding sound_def using len a b c by simp
qed

lemma sound_delete:
  assumes s: "sound n es" and d: "d < 2 ^ n" and h: "holds k (es ! d)"
  shows "sound n (es[d := (es ! d)\<lparr>key := Null, val := Null, deleted := 1\<rparr>]) \<and>
         (\<forall>x < 2 ^ n. \<not> holds k (es[d := (es ! d)\<lparr>key := Null, val := Null, deleted := 1\<rparr>] ! x))"
proof -
  let ?x = "(es ! d)\<lparr>key := Null, val := Null, deleted := 1\<rparr>"
  let ?es' = "es[d := ?x]"
  from s have len: "length es = 2 ^ n"
    by (simp add: sound_def)
  have at: "?es' ! d = ?x"
    using d len by simp
  have off: "?es' ! y = es ! y" if "y \<noteq> d" for y
    using that by simp
  have nx: "\<not> holds t ?x" for t
    by (simp add: holds_def)
  have sub: "holds t (es ! y)" if "holds t (?es' ! y)" for t y
    using that at off nx by (cases "y = d") auto
  have notd: "y \<noteq> d" if "holds t (?es' ! y)" for t y
    using that at nx by auto
  have used': "used (?es' ! y) = used (es ! y)" for y
    using at off by (cases "y = d") simp_all
  have a: "\<forall>y < 2 ^ n. used (?es' ! y) \<noteq> 0 \<and> deleted (?es' ! y) = 0 \<longrightarrow> (\<exists>s. key (?es' ! y) = Ptr s)"
  proof (intro allI impI)
    fix y assume "y < 2 ^ n" "used (?es' ! y) \<noteq> 0 \<and> deleted (?es' ! y) = 0"
    then show "\<exists>s. key (?es' ! y) = Ptr s"
      using s at off unfolding sound_def by (cases "y = d") auto
  qed
  have b: "\<forall>y < 2 ^ n. \<forall>t. holds t (?es' ! y) \<longrightarrow>
         (\<exists>r < 2 ^ n. home n t r = y \<and> (\<forall>j < r. used (?es' ! home n t j) \<noteq> 0))"
    using s sub unfolding sound_def used' by blast
  have c: "\<forall>y < 2 ^ n. \<forall>y' < 2 ^ n. \<forall>t. holds t (?es' ! y) \<and> holds t (?es' ! y') \<longrightarrow> y = y'"
    using s sub unfolding sound_def by blast
  have gone: "\<forall>x < 2 ^ n. \<not> holds k (?es' ! x)"
  proof (intro allI impI notI)
    fix x assume x: "x < 2 ^ n" and hx: "holds k (?es' ! x)"
    from sub[OF hx] h s x d have "x = d"
      unfolding sound_def by blast
    with notd[OF hx] show False by simp
  qed
  show ?thesis
    unfolding sound_def using len a b c gone by simp
qed

text \<open>
  What the walks of set and delete do to the slots when both copies succeed, and where
  they stop.
\<close>

lemma set_sa_loop_effect:
  assumes c: "cap hm = 2 ^ n" "n < 64"
  shows "i \<le> 2 ^ n \<Longrightarrow>
     (\<And>j. j < i \<Longrightarrow> passed k (entries_sa hm ! home n k j)) \<Longrightarrow>
     (0 \<le> ft \<Longrightarrow> \<exists>p < i. nat ft = home n k p \<and> deleted (entries_sa hm ! home n k p) \<noteq> 0) \<Longrightarrow>
     hashmap_set_sa_loop hm k v True True (fnv_hash_sa k AND (cap hm - 1)) ft i = Inr (hm', r) \<Longrightarrow>
     hm' = hm \<or>
     (\<exists>p < 2 ^ n. holds k (entries_sa hm ! home n k p) \<and>
        hm' = hm\<lparr>entries_sa := (entries_sa hm)
                 [home n k p := (entries_sa hm ! home n k p)\<lparr>val := Ptr v\<rparr>]\<rparr>) \<or>
     (\<exists>p q. p \<le> q \<and> q < 2 ^ n \<and> used (entries_sa hm ! home n k q) = 0 \<and>
        (\<forall>j < q. passed k (entries_sa hm ! home n k j)) \<and>
        (used (entries_sa hm ! home n k p) = 0 \<or> deleted (entries_sa hm ! home n k p) \<noteq> 0) \<and>
        hm' = hm\<lparr>entries_sa := (entries_sa hm)
                 [home n k p := \<lparr>key = Ptr k, val = Ptr v, used = 1, deleted = 0\<rparr>]\<rparr>)"
proof (induction "2 ^ n - i" arbitrary: i ft)
  case 0
  then have "i = 2 ^ n" by simp
  with 0 show ?case
    by (simp add: set_sa_loop_exit[OF c])
next
  case (Suc m)
  let ?es = "entries_sa hm"
  from Suc have lt: "i < 2 ^ n" by simp
  define e where "e = ?es ! home n k i"
  note st = set_sa_loop_step[OF c lt, of k v True True "fnv_hash_sa k" ft, unfolded Let_def,
      folded home_def, folded e_def]
  note g = Suc.prems(4)[unfolded st]
  have m: "m = 2 ^ n - (i + 1)"
    using Suc.hyps(2) by simp
  have le: "i + 1 \<le> 2 ^ n"
    using lt by simp
  show ?case
  proof (cases "used e = 0")
    case True
    obtain p where p: "p \<le> i" "(if 0 \<le> ft then nat ft else home n k i) = home n k p"
      "used (?es ! home n k p) = 0 \<or> deleted (?es ! home n k p) \<noteq> 0"
    proof (cases "0 \<le> ft")
      case True
      with Suc.prems(3) obtain p where "p < i" "nat ft = home n k p"
        "deleted (?es ! home n k p) \<noteq> 0" by blast
      with True that[of p] show ?thesis by simp
    next
      case False
      with that[of i] \<open>used e = 0\<close> show ?thesis by (simp add: e_def)
    qed
    from g True have "hm' = hm\<lparr>entries_sa := ?es[home n k p :=
          \<lparr>key = Ptr k, val = Ptr v, used = 1, deleted = 0\<rparr>]\<rparr>"
      by (simp add: strdup_def p(2) entry_overwritten)
    moreover have "used (?es ! home n k i) = 0"
      using True by (simp add: e_def)
    moreover have "\<forall>j < i. passed k (?es ! home n k j)"
      using Suc.prems(2) by simp
    ultimately have "p \<le> i \<and> i < 2 ^ n \<and> used (?es ! home n k i) = 0 \<and>
        (\<forall>j < i. passed k (?es ! home n k j)) \<and>
        (used (?es ! home n k p) = 0 \<or> deleted (?es ! home n k p) \<noteq> 0) \<and>
        hm' = hm\<lparr>entries_sa := ?es[home n k p :=
          \<lparr>key = Ptr k, val = Ptr v, used = 1, deleted = 0\<rparr>]\<rparr>"
      using p(1,3) lt by simp
    then show ?thesis
      by (intro disjI2 exI[of _ p] exI[of _ i])
  next
    case False
    note u = this
    show ?thesis
    proof (cases "deleted e = 0")
      case False
      have pass: "passed k e"
        using u False by (simp add: passed_def)
      from g u False have rec: "hashmap_set_sa_loop hm k v True True
            (fnv_hash_sa k AND (cap hm - 1)) (if ft < 0 then int (home n k i) else ft) (i + 1)
            = Inr (hm', r)"
        by simp
      show ?thesis
      proof (rule Suc.hyps(1)[OF m le _ _ rec])
        fix j assume "j < i + 1"
        then show "passed k (?es ! home n k j)"
          using Suc.prems(2)[of j] pass by (cases "j = i") (simp_all add: e_def)
      next
        assume "0 \<le> (if ft < 0 then int (home n k i) else ft)"
        show "\<exists>p < i + 1. nat (if ft < 0 then int (home n k i) else ft) = home n k p \<and>
                deleted (?es ! home n k p) \<noteq> 0"
        proof (cases "ft < 0")
          case True
          with False show ?thesis
            by (intro exI[of _ i]) (simp add: e_def)
        next
          case False
          with Suc.prems(3) obtain p where "p < i" "nat ft = home n k p"
            "deleted (?es ! home n k p) \<noteq> 0" by auto
          with False show ?thesis
            by (intro exI[of _ p]) simp
        qed
      qed
    next
      case True
      from g u True obtain s where s: "key e = Ptr s"
        by (cases "key e") auto
      show ?thesis
      proof (cases "s = k")
        case True
        from g u \<open>deleted e = 0\<close> s True
        have "hm' = hm\<lparr>entries_sa := ?es[home n k i := e\<lparr>val := Ptr v\<rparr>]\<rparr>"
          by (simp add: strdup_def)
        moreover have "holds k (?es ! home n k i)"
          using u \<open>deleted e = 0\<close> s True by (simp add: holds_def e_def[symmetric])
        ultimately have "i < 2 ^ n \<and> holds k (?es ! home n k i) \<and>
            hm' = hm\<lparr>entries_sa := ?es[home n k i := (?es ! home n k i)\<lparr>val := Ptr v\<rparr>]\<rparr>"
          using lt by (simp add: e_def)
        then show ?thesis
          by (intro disjI2 disjI1 exI[of _ i])
      next
        case False
        have pass: "passed k e"
          using u s False by (simp add: passed_def)
        from g u True s False have rec: "hashmap_set_sa_loop hm k v True True
              (fnv_hash_sa k AND (cap hm - 1)) ft (i + 1) = Inr (hm', r)"
          by simp
        show ?thesis
        proof (rule Suc.hyps(1)[OF m le _ _ rec])
          fix j assume "j < i + 1"
          then show "passed k (?es ! home n k j)"
            using Suc.prems(2)[of j] pass by (cases "j = i") (simp_all add: e_def)
        next
          assume "0 \<le> ft"
          with Suc.prems(3) obtain p where "p < i" "nat ft = home n k p"
            "deleted (?es ! home n k p) \<noteq> 0" by auto
          then show "\<exists>p < i + 1. nat ft = home n k p \<and> deleted (?es ! home n k p) \<noteq> 0"
            by (intro exI[of _ p]) simp
        qed
      qed
    qed
  qed
qed

lemma delete_sa_loop_effect:
  assumes c: "cap hm = 2 ^ n" "n < 64"
  shows "i \<le> 2 ^ n \<Longrightarrow>
     (\<And>j. j < i \<Longrightarrow> passed k (entries_sa hm ! home n k j)) \<Longrightarrow>
     hashmap_delete_sa_loop hm k (fnv_hash_sa k AND (cap hm - 1)) i = Inr hm' \<Longrightarrow>
     (hm' = hm \<and>
        ((\<exists>q < 2 ^ n. used (entries_sa hm ! home n k q) = 0 \<and>
            (\<forall>j < q. passed k (entries_sa hm ! home n k j))) \<or>
         (\<forall>j < 2 ^ n. passed k (entries_sa hm ! home n k j)))) \<or>
     (\<exists>p < 2 ^ n. holds k (entries_sa hm ! home n k p) \<and>
        hm' = hm\<lparr>entries_sa := (entries_sa hm)
                 [home n k p := (entries_sa hm ! home n k p)\<lparr>key := Null, val := Null, deleted := 1\<rparr>]\<rparr>)"
proof (induction "2 ^ n - i" arbitrary: i)
  case 0
  then have "i = 2 ^ n" by simp
  with 0 show ?case
    by (simp add: delete_sa_loop_exit[OF c])
next
  case (Suc m)
  let ?es = "entries_sa hm"
  from Suc have lt: "i < 2 ^ n" by simp
  define e where "e = ?es ! home n k i"
  note st = delete_sa_loop_step[OF c lt, of k "fnv_hash_sa k", unfolded Let_def,
      folded home_def, folded e_def]
  note g = Suc.prems(3)[unfolded st]
  have m: "m = 2 ^ n - (i + 1)"
    using Suc.hyps(2) by simp
  have le: "i + 1 \<le> 2 ^ n"
    using lt by simp
  show ?case
  proof (cases "used e = 0")
    case True
    with g have "hm' = hm" by simp
    moreover have "used (?es ! home n k i) = 0"
      using True by (simp add: e_def)
    moreover have "\<forall>j < i. passed k (?es ! home n k j)"
      using Suc.prems(2) by simp
    ultimately show ?thesis
      using lt by (intro disjI1) blast
  next
    case False
    note u = this
    have step: "passed k e \<Longrightarrow>
        hashmap_delete_sa_loop hm k (fnv_hash_sa k AND (cap hm - 1)) (i + 1) = Inr hm' \<Longrightarrow> ?thesis"
    proof -
      assume pass: "passed k e"
        and rec: "hashmap_delete_sa_loop hm k (fnv_hash_sa k AND (cap hm - 1)) (i + 1) = Inr hm'"
      show ?thesis
      proof (rule Suc.hyps(1)[OF m le _ rec])
        fix j assume "j < i + 1"
        then show "passed k (?es ! home n k j)"
          using Suc.prems(2)[of j] pass by (cases "j = i") (simp_all add: e_def)
      qed
    qed
    show ?thesis
    proof (cases "deleted e = 0")
      case False
      with g u show ?thesis
        by (intro step) (simp_all add: passed_def)
    next
      case True
      from g u True obtain s where s: "key e = Ptr s"
        by (cases "key e") auto
      show ?thesis
      proof (cases "s = k")
        case False
        with g u True s show ?thesis
          by (intro step) (simp_all add: passed_def)
      next
        case True
        from g u \<open>deleted e = 0\<close> s True
        have "hm' = hm\<lparr>entries_sa := ?es[home n k i := e\<lparr>key := Null, val := Null, deleted := 1\<rparr>]\<rparr>"
          by simp
        moreover have "holds k (?es ! home n k i)"
          using u \<open>deleted e = 0\<close> s True by (simp add: holds_def e_def[symmetric])
        ultimately show ?thesis
          using lt unfolding e_def by (intro disjI2) blast
      qed
    qed
  qed
qed

text \<open>
  On a sound table no walk meets a dead key buffer, so set and delete return; they
  keep the table sound.
\<close>

lemma sound_live:
  "sound n es \<Longrightarrow> d < 2 ^ n \<Longrightarrow> used (es ! d) \<noteq> 0 \<Longrightarrow> deleted (es ! d) = 0 \<Longrightarrow>
   \<exists>s. key (es ! d) = Ptr s"
  unfolding sound_def by blast

lemma set_sa_loop_total:
  assumes c: "cap hm = 2 ^ n" "n < 64" and s: "sound n (entries_sa hm)"
  shows "i \<le> 2 ^ n \<Longrightarrow>
     \<exists>hm' r. hashmap_set_sa_loop hm k v kok vok (h AND (cap hm - 1)) ft i = Inr (hm', r)"
proof (induction "2 ^ n - i" arbitrary: i ft)
  case 0
  then have "i = 2 ^ n" by simp
  then show ?case
    by (simp add: set_sa_loop_exit[OF c])
next
  case (Suc m)
  from Suc have lt: "i < 2 ^ n" by simp
  define e where "e = entries_sa hm ! ((unat h mod 2 ^ n + i) mod 2 ^ n)"
  note st = set_sa_loop_step[OF c lt, of k v kok vok h ft, unfolded Let_def, folded e_def]
  have m: "m = 2 ^ n - (i + 1)"
    using Suc.hyps(2) by simp
  have le: "i + 1 \<le> 2 ^ n"
    using lt by simp
  note ih = Suc.hyps(1)[OF m le]
  show ?case
  proof (cases "used e = 0")
    case True
    then show ?thesis
      unfolding st by simp
  next
    case False
    note u = this
    show ?thesis
    proof (cases "deleted e = 0")
      case False
      with u ih show ?thesis
        unfolding st by simp
    next
      case True
      have "(unat h mod 2 ^ n + i) mod 2 ^ n < (2::nat) ^ n"
        by simp
      from sound_live[OF s this] u True obtain t where t: "key e = Ptr t"
        by (auto simp: e_def)
      show ?thesis
      proof (cases "t = k")
        case True
        with u \<open>deleted e = 0\<close> t show ?thesis
          unfolding st by simp
      next
        case False
        with u \<open>deleted e = 0\<close> t ih show ?thesis
          unfolding st by simp
      qed
    qed
  qed
qed

lemma delete_sa_loop_total:
  assumes c: "cap hm = 2 ^ n" "n < 64" and s: "sound n (entries_sa hm)"
  shows "i \<le> 2 ^ n \<Longrightarrow>
     \<exists>hm'. hashmap_delete_sa_loop hm k (h AND (cap hm - 1)) i = Inr hm'"
proof (induction "2 ^ n - i" arbitrary: i)
  case 0
  then have "i = 2 ^ n" by simp
  then show ?case
    by (simp add: delete_sa_loop_exit[OF c])
next
  case (Suc m)
  from Suc have lt: "i < 2 ^ n" by simp
  define e where "e = entries_sa hm ! ((unat h mod 2 ^ n + i) mod 2 ^ n)"
  note st = delete_sa_loop_step[OF c lt, of k h, unfolded Let_def, folded e_def]
  have m: "m = 2 ^ n - (i + 1)"
    using Suc.hyps(2) by simp
  have le: "i + 1 \<le> 2 ^ n"
    using lt by simp
  note ih = Suc.hyps(1)[OF m le]
  show ?case
  proof (cases "used e = 0")
    case True
    then show ?thesis
      unfolding st by simp
  next
    case False
    note u = this
    show ?thesis
    proof (cases "deleted e = 0")
      case False
      with u ih show ?thesis
        unfolding st by simp
    next
      case True
      have "(unat h mod 2 ^ n + i) mod 2 ^ n < (2::nat) ^ n"
        by simp
      from sound_live[OF s this] u True obtain t where t: "key e = Ptr t"
        by (auto simp: e_def)
      show ?thesis
      proof (cases "t = k")
        case True
        with u \<open>deleted e = 0\<close> t show ?thesis
          unfolding st by simp
      next
        case False
        with u \<open>deleted e = 0\<close> t ih show ?thesis
          unfolding st by simp
      qed
    qed
  qed
qed

lemma get_sa_loop_absent:
  assumes c: "cap hm = 2 ^ n" "n < 64" and s: "sound n (entries_sa hm)"
    and a: "\<And>x. x < 2 ^ n \<Longrightarrow> \<not> holds k (entries_sa hm ! x)"
  shows "i \<le> 2 ^ n \<Longrightarrow> hashmap_get_sa_loop hm k (h AND (cap hm - 1)) i = Inr Null"
proof (induction "2 ^ n - i" arbitrary: i)
  case 0
  then have "i = 2 ^ n" by simp
  then show ?case
    by (simp add: get_sa_loop_exit[OF c])
next
  case (Suc m)
  from Suc have lt: "i < 2 ^ n" by simp
  define e where "e = entries_sa hm ! ((unat h mod 2 ^ n + i) mod 2 ^ n)"
  note st = get_sa_loop_step[OF c lt, of k h, unfolded Let_def, folded e_def]
  have m: "m = 2 ^ n - (i + 1)"
    using Suc.hyps(2) by simp
  have le: "i + 1 \<le> 2 ^ n"
    using lt by simp
  note ih = Suc.hyps(1)[OF m le]
  have pos: "(unat h mod 2 ^ n + i) mod 2 ^ n < (2::nat) ^ n"
    by simp
  show ?case
  proof (cases "used e = 0")
    case True
    then show ?thesis
      unfolding st by simp
  next
    case False
    note u = this
    show ?thesis
    proof (cases "deleted e = 0")
      case False
      with u ih show ?thesis
        unfolding st by simp
    next
      case True
      from sound_live[OF s pos] u True obtain t where t: "key e = Ptr t"
        by (auto simp: e_def)
      from a[OF pos] u True t have "t \<noteq> k"
        by (auto simp: holds_def e_def[symmetric])
      with u True t ih show ?thesis
        unfolding st by simp
    qed
  qed
qed

lemma delete_sa_loop_absent:
  assumes c: "cap hm = 2 ^ n" "n < 64" and s: "sound n (entries_sa hm)"
    and a: "\<And>x. x < 2 ^ n \<Longrightarrow> \<not> holds k (entries_sa hm ! x)"
  shows "i \<le> 2 ^ n \<Longrightarrow> hashmap_delete_sa_loop hm k (h AND (cap hm - 1)) i = Inr hm"
proof (induction "2 ^ n - i" arbitrary: i)
  case 0
  then have "i = 2 ^ n" by simp
  then show ?case
    by (simp add: delete_sa_loop_exit[OF c])
next
  case (Suc m)
  from Suc have lt: "i < 2 ^ n" by simp
  define e where "e = entries_sa hm ! ((unat h mod 2 ^ n + i) mod 2 ^ n)"
  note st = delete_sa_loop_step[OF c lt, of k h, unfolded Let_def, folded e_def]
  have m: "m = 2 ^ n - (i + 1)"
    using Suc.hyps(2) by simp
  have le: "i + 1 \<le> 2 ^ n"
    using lt by simp
  note ih = Suc.hyps(1)[OF m le]
  have pos: "(unat h mod 2 ^ n + i) mod 2 ^ n < (2::nat) ^ n"
    by simp
  show ?case
  proof (cases "used e = 0")
    case True
    then show ?thesis
      unfolding st by simp
  next
    case False
    note u = this
    show ?thesis
    proof (cases "deleted e = 0")
      case False
      with u ih show ?thesis
        unfolding st by simp
    next
      case True
      from sound_live[OF s pos] u True obtain t where t: "key e = Ptr t"
        by (auto simp: e_def)
      from a[OF pos] u True t have "t \<noteq> k"
        by (auto simp: holds_def e_def[symmetric])
      with u True t ih show ?thesis
        unfolding st by simp
    qed
  qed
qed

lemma sound_set_val:
  assumes s: "sound n es" and d: "d < 2 ^ n"
  shows "sound n (es[d := (es ! d)\<lparr>val := w\<rparr>])"
proof (rule sound_same_flags[OF s])
  show "length (es[d := (es ! d)\<lparr>val := w\<rparr>]) = length es"
    by simp
next
  fix x :: nat
  assume "x < 2 ^ n"
  moreover from s have "length es = 2 ^ n"
    by (simp add: sound_def)
  ultimately show "used (es[d := (es ! d)\<lparr>val := w\<rparr>] ! x) = used (es ! x) \<and>
      deleted (es[d := (es ! d)\<lparr>val := w\<rparr>] ! x) = deleted (es ! x) \<and>
      key (es[d := (es ! d)\<lparr>val := w\<rparr>] ! x) = key (es ! x)"
    using d by (cases "x = d") simp_all
qed

lemma sound_fresh: "sound n (replicate (2 ^ n) zero_entry)"
  by (simp add: sound_def holds_def zero_entry_def)

lemma hashmap_set_sa_sound:
  assumes s: "sound_sa n hm" and r: "hashmap_set_sa hm k v True True = Inr (hm', r)"
  shows "sound_sa n hm'"
proof -
  let ?es = "entries_sa hm"
  from s have c: "cap hm = 2 ^ n" "n < 64" and so: "sound n ?es"
    by (simp_all add: sound_sa_def)
  have "hm' = hm \<or>
     (\<exists>p < 2 ^ n. holds k (?es ! home n k p) \<and>
        hm' = hm\<lparr>entries_sa := ?es[home n k p := (?es ! home n k p)\<lparr>val := Ptr v\<rparr>]\<rparr>) \<or>
     (\<exists>p q. p \<le> q \<and> q < 2 ^ n \<and> used (?es ! home n k q) = 0 \<and>
        (\<forall>j < q. passed k (?es ! home n k j)) \<and>
        (used (?es ! home n k p) = 0 \<or> deleted (?es ! home n k p) \<noteq> 0) \<and>
        hm' = hm\<lparr>entries_sa := ?es[home n k p := \<lparr>key = Ptr k, val = Ptr v, used = 1, deleted = 0\<rparr>]\<rparr>)"
    by (rule set_sa_loop_effect[OF c, where i = 0 and ft = "-1" and r = r])
       (use r in \<open>simp_all add: hashmap_set_sa_def\<close>)
  moreover have ins: "sound_sa n hm'"
    if p: "p \<le> q" "q < 2 ^ n" and q: "used (?es ! home n k q) = 0"
      and b: "\<forall>j < q. passed k (?es ! home n k j)"
      and f: "used (?es ! home n k p) = 0 \<or> deleted (?es ! home n k p) \<noteq> 0"
      and hm': "hm' = hm\<lparr>entries_sa := ?es[home n k p :=
                   \<lparr>key = Ptr k, val = Ptr v, used = 1, deleted = 0\<rparr>]\<rparr>"
    for p q
  proof -
    from b have "\<And>j. j < q \<Longrightarrow> passed k (?es ! home n k j)"
      by simp
    from sound_insert[OF so p q this f, of v] show ?thesis
      using c by (simp add: sound_sa_def hm')
  qed
  moreover have upd: "sound_sa n hm'"
    if "hm' = hm\<lparr>entries_sa := ?es[home n k p := (?es ! home n k p)\<lparr>val := Ptr v\<rparr>]\<rparr>"
    for p
    using that c sound_set_val[OF so home_less[of n k p], of "Ptr v"]
    by (simp add: sound_sa_def)
  ultimately show ?thesis
    using s by blast
qed

lemma hashmap_delete_sa_sound:
  assumes s: "sound_sa n hm" and r: "hashmap_delete_sa hm k = Inr hm'"
  shows "sound_sa n hm' \<and> (\<forall>x < 2 ^ n. \<not> holds k (entries_sa hm' ! x))"
proof -
  let ?es = "entries_sa hm"
  from s have c: "cap hm = 2 ^ n" "n < 64" and so: "sound n ?es"
    by (simp_all add: sound_sa_def)
  have "(hm' = hm \<and>
        ((\<exists>q < 2 ^ n. used (?es ! home n k q) = 0 \<and> (\<forall>j < q. passed k (?es ! home n k j))) \<or>
         (\<forall>j < 2 ^ n. passed k (?es ! home n k j)))) \<or>
     (\<exists>p < 2 ^ n. holds k (?es ! home n k p) \<and>
        hm' = hm\<lparr>entries_sa := ?es[home n k p :=
                 (?es ! home n k p)\<lparr>key := Null, val := Null, deleted := 1\<rparr>]\<rparr>)"
    by (rule delete_sa_loop_effect[OF c, where i = 0])
       (use r in \<open>simp_all add: hashmap_delete_sa_def\<close>)
  then show ?thesis
  proof (elim disjE exE conjE)
    fix q
    assume hm': "hm' = hm" and q: "used (?es ! home n k q) = 0"
      and b: "\<forall>j < q. passed k (?es ! home n k j)"
    from b have "\<And>j. j < q \<Longrightarrow> passed k (?es ! home n k j)"
      by simp
    from sound_not_behind_empty[OF so q this] s show ?thesis
      by (simp add: hm')
  next
    assume hm': "hm' = hm" and b: "\<forall>j < 2 ^ n. passed k (?es ! home n k j)"
    from b have "\<And>j. j < 2 ^ n \<Longrightarrow> passed k (?es ! home n k j)"
      by simp
    from sound_not_when_all_passed[OF so this] s show ?thesis
      by (simp add: hm')
  next
    fix p
    assume h: "holds k (?es ! home n k p)"
      and hm': "hm' = hm\<lparr>entries_sa := ?es[home n k p :=
                 (?es ! home n k p)\<lparr>key := Null, val := Null, deleted := 1\<rparr>]\<rparr>"
    from sound_delete[OF so home_less h] show ?thesis
      using c by (simp add: sound_sa_def hm')
  qed
qed

lemma hashmap_set_sa_total:
  assumes s: "sound_sa n hm"
  shows "\<exists>hm' r. hashmap_set_sa hm k v kok vok = Inr (hm', r)"
  using s set_sa_loop_total[of hm n 0 k v kok vok "fnv_hash_sa k" "-1"]
  by (simp add: sound_sa_def hashmap_set_sa_def)

lemma hashmap_delete_sa_total:
  assumes s: "sound_sa n hm"
  shows "\<exists>hm'. hashmap_delete_sa hm k = Inr hm'"
  using s delete_sa_loop_total[of hm n 0 k "fnv_hash_sa k"]
  by (simp add: sound_sa_def hashmap_delete_sa_def)

text \<open>
  In a sound standalone table a key sits in at most one slot; a delete leaves the
  table sound and the key in no slot, after which the lookup says not-found and a
  second delete changes nothing.
\<close>

lemma sound_sa_unique:
  assumes "sound_sa n hm" "x < 2 ^ n" "y < 2 ^ n"
    and "holds k (entries_sa hm ! x)" "holds k (entries_sa hm ! y)"
  shows "x = y"
  using assms unfolding sound_sa_def sound_def by blast

lemma hashmap_delete_sa_then_get:
  assumes s: "sound_sa n hm"
  shows "\<exists>hm'. hashmap_delete_sa hm k = Inr hm' \<and> sound_sa n hm' \<and>
           hashmap_get_sa hm' k = Inr Null \<and> hashmap_delete_sa hm' k = Inr hm'"
proof -
  from hashmap_delete_sa_total[OF s] obtain hm' where d: "hashmap_delete_sa hm k = Inr hm'"
    by blast
  from hashmap_delete_sa_sound[OF s d]
  have s': "sound_sa n hm'" and a: "\<And>x. x < 2 ^ n \<Longrightarrow> \<not> holds k (entries_sa hm' ! x)"
    by simp_all
  from s' have c: "cap hm' = 2 ^ n" "n < 64" and so: "sound n (entries_sa hm')"
    by (simp_all add: sound_sa_def)
  have "hashmap_get_sa hm' k = Inr Null"
    unfolding hashmap_get_sa_def by (rule get_sa_loop_absent[OF c so a]) simp_all
  moreover have "hashmap_delete_sa hm' k = Inr hm'"
    unfolding hashmap_delete_sa_def by (rule delete_sa_loop_absent[OF c so a]) simp_all
  ultimately show ?thesis
    using d s' by simp
qed

text \<open>
  The table that \<^verbatim>\<open>hashmap_create\<close> returns is sound, and a run of sets and deletes
  whose copies all succeed ends without a fault in a sound table.
\<close>

lemma hashmap_create_sa_sound:
  assumes "hashmap_create_sa mok cok expected_items = Some (Some hm)"
  shows "\<exists>n. sound_sa n hm"
proof -
  from assms obtain c where c: "next_pow2 (expected_items * 2 + 1) = Some c"
    and hm: "hm = \<lparr>entries_sa = replicate (unat c) zero_entry, cap = c\<rparr>"
    by (auto simp: hashmap_create_sa_def split: option.splits if_splits)
  from c have "\<exists>n < 64. c = 2 ^ n"
    unfolding next_pow2_def
    by (rule next_pow2_loop_pow2) (auto intro: exI[of _ 0])
  then obtain n where "n < 64" "c = 2 ^ n" by blast
  then show ?thesis
    by (intro exI[of _ n]) (simp add: hm unat_pow2_64 sound_sa_def sound_fresh)
qed

lemma run_sa_sound:
  "sound_sa n hm \<Longrightarrow> \<forall>x \<in> set ops. copies_ok x \<Longrightarrow>
   \<exists>hm'. run_sa hm ops = Inr hm' \<and> sound_sa n hm'"
proof (induction ops arbitrary: hm)
  case Nil
  then show ?case by simp
next
  case (Cons x ops)
  show ?case
  proof (cases x)
    case (Set k v kok vok)
    with Cons.prems(2) have ok: "kok" "vok" by simp_all
    from hashmap_set_sa_total[OF Cons.prems(1), of k v True True]
    obtain hm1 r where r: "hashmap_set_sa hm k v True True = Inr (hm1, r)"
      by blast
    from hashmap_set_sa_sound[OF Cons.prems(1) r] have "sound_sa n hm1" .
    from Cons.IH[OF this] Cons.prems(2) show ?thesis
      by (simp add: Set ok r)
  next
    case (Del k)
    from hashmap_delete_sa_total[OF Cons.prems(1), of k]
    obtain hm1 where r: "hashmap_delete_sa hm k = Inr hm1"
      by blast
    from hashmap_delete_sa_sound[OF Cons.prems(1) r] have "sound_sa n hm1" by simp
    from Cons.IH[OF this] Cons.prems(2) show ?thesis
      by (simp add: Del r)
  qed
qed

text \<open>
  Together: from a created table, through any run of sets and deletes whose copies
  succeed, no key is held twice, and after a delete of a key its lookup says not-found
  and a second delete changes nothing.
\<close>

lemma standalone_run_keeps_invariants:
  assumes cr: "hashmap_create_sa mok cok expected_items = Some (Some hm0)"
    and ok: "\<forall>x \<in> set ops. copies_ok x"
  shows "\<exists>n hm. run_sa hm0 ops = Inr hm \<and> sound_sa n hm \<and>
           (\<forall>x < 2 ^ n. \<forall>y < 2 ^ n. \<forall>k.
              holds k (entries_sa hm ! x) \<and> holds k (entries_sa hm ! y) \<longrightarrow> x = y) \<and>
           (\<forall>k. \<exists>hm'. hashmap_delete_sa hm k = Inr hm' \<and>
                  hashmap_get_sa hm' k = Inr Null \<and> hashmap_delete_sa hm' k = Inr hm')"
proof -
  from hashmap_create_sa_sound[OF cr] obtain n where "sound_sa n hm0"
    by blast
  from run_sa_sound[OF this ok] obtain hm where hm: "run_sa hm0 ops = Inr hm" "sound_sa n hm"
    by blast
  have "\<forall>x < 2 ^ n. \<forall>y < 2 ^ n. \<forall>k.
          holds k (entries_sa hm ! x) \<and> holds k (entries_sa hm ! y) \<longrightarrow> x = y"
    using sound_sa_unique[OF hm(2)] by blast
  moreover have "\<forall>k. \<exists>hm'. hashmap_delete_sa hm k = Inr hm' \<and>
          hashmap_get_sa hm' k = Inr Null \<and> hashmap_delete_sa hm' k = Inr hm'"
    using hashmap_delete_sa_then_get[OF hm(2)] by blast
  ultimately show ?thesis
    using hm by blast
qed

section \<open>The lookup on the tables that set and delete reach\<close>

text \<open>
  The ownership that the lookup needs, an Occupied slot having a live key, is kept by
  every operation of the standalone table and by the server as long as no copy of a
  key fails.
\<close>

lemma owned_live:
  "owned es c \<Longrightarrow> d < c \<Longrightarrow> used (es ! d) \<noteq> 0 \<Longrightarrow> deleted (es ! d) = 0 \<Longrightarrow>
   \<exists>s. key (es ! d) = Ptr s"
  by (simp add: owned_def state_of_def)

lemma owned_update:
  assumes o: "owned es c" and x: "state_of x = Occupied \<Longrightarrow> \<exists>s. key x = Ptr s"
  shows "owned (es[d := x]) c"
  unfolding owned_def
proof (intro allI impI)
  fix j
  assume j: "j < c" and st: "state_of (es[d := x] ! j) = Occupied"
  show "\<exists>s. key (es[d := x] ! j) = Ptr s"
  proof (cases "j = d \<and> d < length es")
    case True
    with st x show ?thesis by simp
  next
    case False
    then have "es[d := x] ! j = es ! j"
      by (cases "d < length es") (auto simp: list_update_beyond)
    with o j st show ?thesis
      by (simp add: owned_def)
  qed
qed

lemma owned_fresh: "owned (replicate c zero_entry) c"
  by (simp add: owned_def state_of_def zero_entry_def)

text \<open>The standalone table: every set and every delete returns and keeps the ownership.\<close>

lemma set_sa_loop_returns:
  assumes c: "cap hm = 2 ^ n" "n < 64" and o: "owned (entries_sa hm) (2 ^ n)"
  shows "i \<le> 2 ^ n \<Longrightarrow>
     \<exists>hm' r. hashmap_set_sa_loop hm k v kok vok (h AND (cap hm - 1)) ft i = Inr (hm', r)"
proof (induction "2 ^ n - i" arbitrary: i ft)
  case 0
  then have "i = 2 ^ n" by simp
  then show ?case
    by (simp add: set_sa_loop_exit[OF c])
next
  case (Suc m)
  from Suc have lt: "i < 2 ^ n" by simp
  define e where "e = entries_sa hm ! ((unat h mod 2 ^ n + i) mod 2 ^ n)"
  note st = set_sa_loop_step[OF c lt, of k v kok vok h ft, unfolded Let_def, folded e_def]
  have m: "m = 2 ^ n - (i + 1)"
    using Suc.hyps(2) by simp
  have le: "i + 1 \<le> 2 ^ n"
    using lt by simp
  note ih = Suc.hyps(1)[OF m le]
  show ?case
  proof (cases "used e = 0")
    case True
    then show ?thesis
      unfolding st by simp
  next
    case False
    note u = this
    show ?thesis
    proof (cases "deleted e = 0")
      case False
      with u ih show ?thesis
        unfolding st by simp
    next
      case True
      have "(unat h mod 2 ^ n + i) mod 2 ^ n < (2::nat) ^ n"
        by simp
      from owned_live[OF o this] u True obtain t where t: "key e = Ptr t"
        by (auto simp: e_def)
      show ?thesis
      proof (cases "t = k")
        case True
        with u \<open>deleted e = 0\<close> t show ?thesis
          unfolding st by simp
      next
        case False
        with u \<open>deleted e = 0\<close> t ih show ?thesis
          unfolding st by simp
      qed
    qed
  qed
qed

lemma delete_sa_loop_returns:
  assumes c: "cap hm = 2 ^ n" "n < 64" and o: "owned (entries_sa hm) (2 ^ n)"
  shows "i \<le> 2 ^ n \<Longrightarrow>
     \<exists>hm'. hashmap_delete_sa_loop hm k (h AND (cap hm - 1)) i = Inr hm'"
proof (induction "2 ^ n - i" arbitrary: i)
  case 0
  then have "i = 2 ^ n" by simp
  then show ?case
    by (simp add: delete_sa_loop_exit[OF c])
next
  case (Suc m)
  from Suc have lt: "i < 2 ^ n" by simp
  define e where "e = entries_sa hm ! ((unat h mod 2 ^ n + i) mod 2 ^ n)"
  note st = delete_sa_loop_step[OF c lt, of k h, unfolded Let_def, folded e_def]
  have m: "m = 2 ^ n - (i + 1)"
    using Suc.hyps(2) by simp
  have le: "i + 1 \<le> 2 ^ n"
    using lt by simp
  note ih = Suc.hyps(1)[OF m le]
  show ?case
  proof (cases "used e = 0")
    case True
    then show ?thesis
      unfolding st by simp
  next
    case False
    note u = this
    show ?thesis
    proof (cases "deleted e = 0")
      case False
      with u ih show ?thesis
        unfolding st by simp
    next
      case True
      have "(unat h mod 2 ^ n + i) mod 2 ^ n < (2::nat) ^ n"
        by simp
      from owned_live[OF o this] u True obtain t where t: "key e = Ptr t"
        by (auto simp: e_def)
      show ?thesis
      proof (cases "t = k")
        case True
        with u \<open>deleted e = 0\<close> t show ?thesis
          unfolding st by simp
      next
        case False
        with u \<open>deleted e = 0\<close> t ih show ?thesis
          unfolding st by simp
      qed
    qed
  qed
qed

lemma hashmap_set_sa_owned:
  assumes c: "cap hm = 2 ^ n" "n < 64" and len: "length (entries_sa hm) = 2 ^ n"
    and o: "owned (entries_sa hm) (2 ^ n)"
  shows "\<exists>hm' r. hashmap_set_sa hm k v kok vok = Inr (hm', r) \<and> cap hm' = 2 ^ n \<and>
           length (entries_sa hm') = 2 ^ n \<and> owned (entries_sa hm') (2 ^ n)"
proof -
  from set_sa_loop_returns[OF c o, of 0 k v kok vok "fnv_hash_sa k" "-1"]
  obtain hm' r where s: "hashmap_set_sa hm k v kok vok = Inr (hm', r)"
    by (auto simp: hashmap_set_sa_def)
  have z: "state_of zero_entry = Occupied \<longrightarrow> (\<exists>t. key zero_entry = Ptr t)"
    by (simp add: state_of_def zero_entry_def)
  from hashmap_set_sa_outcome[OF c len s]
  have "hm' = hm \<or> (\<exists>d. hm' = hm\<lparr>entries_sa := (entries_sa hm)[d := zero_entry]\<rparr>) \<or>
          (\<exists>d x. hm' = hm\<lparr>entries_sa := (entries_sa hm)[d := x]\<rparr> \<and> key x = Ptr k)"
    by blast
  with z have "hm' = hm \<or> (\<exists>d x. hm' = hm\<lparr>entries_sa := (entries_sa hm)[d := x]\<rparr> \<and>
          (state_of x = Occupied \<longrightarrow> (\<exists>t. key x = Ptr t)))"
    by blast
  then have "cap hm' = 2 ^ n \<and> length (entries_sa hm') = 2 ^ n \<and> owned (entries_sa hm') (2 ^ n)"
  proof (elim disjE conjE exE)
    assume "hm' = hm"
    with c len o show ?thesis by simp
  next
    fix d x
    assume h: "hm' = hm\<lparr>entries_sa := (entries_sa hm)[d := x]\<rparr>"
      and x: "state_of x = Occupied \<longrightarrow> (\<exists>t. key x = Ptr t)"
    from owned_update[OF o, of x d] x have "owned ((entries_sa hm)[d := x]) (2 ^ n)"
      by blast
    with c len h show ?thesis by simp
  qed
  with s show ?thesis by blast
qed

lemma hashmap_delete_sa_owned:
  assumes c: "cap hm = 2 ^ n" "n < 64" and len: "length (entries_sa hm) = 2 ^ n"
    and o: "owned (entries_sa hm) (2 ^ n)"
  shows "\<exists>hm'. hashmap_delete_sa hm k = Inr hm' \<and> cap hm' = 2 ^ n \<and>
           length (entries_sa hm') = 2 ^ n \<and> owned (entries_sa hm') (2 ^ n)"
proof -
  let ?es = "entries_sa hm"
  from delete_sa_loop_returns[OF c o, of 0 k "fnv_hash_sa k"]
  obtain hm' where s: "hashmap_delete_sa hm k = Inr hm'"
    by (auto simp: hashmap_delete_sa_def)
  have "(hm' = hm \<and>
        ((\<exists>q < 2 ^ n. used (?es ! home n k q) = 0 \<and> (\<forall>j < q. passed k (?es ! home n k j))) \<or>
         (\<forall>j < 2 ^ n. passed k (?es ! home n k j)))) \<or>
     (\<exists>p < 2 ^ n. holds k (?es ! home n k p) \<and>
        hm' = hm\<lparr>entries_sa := ?es[home n k p :=
                 (?es ! home n k p)\<lparr>key := Null, val := Null, deleted := 1\<rparr>]\<rparr>)"
    by (rule delete_sa_loop_effect[OF c, where i = 0])
       (use s in \<open>simp_all add: hashmap_delete_sa_def\<close>)
  then have "hm' = hm \<or> (\<exists>d x. hm' = hm\<lparr>entries_sa := ?es[d := x]\<rparr> \<and> state_of x \<noteq> Occupied)"
  proof (elim disjE conjE exE)
    fix p
    assume "hm' = hm\<lparr>entries_sa := ?es[home n k p :=
                 (?es ! home n k p)\<lparr>key := Null, val := Null, deleted := 1\<rparr>]\<rparr>"
    moreover have "state_of ((?es ! home n k p)\<lparr>key := Null, val := Null, deleted := 1\<rparr>) \<noteq> Occupied"
      by (simp add: state_of_def)
    ultimately show ?thesis by blast
  qed simp_all
  then have "cap hm' = 2 ^ n \<and> length (entries_sa hm') = 2 ^ n \<and> owned (entries_sa hm') (2 ^ n)"
  proof (elim disjE conjE exE)
    assume "hm' = hm"
    with c len o show ?thesis by simp
  next
    fix d x
    assume h: "hm' = hm\<lparr>entries_sa := ?es[d := x]\<rparr>" and x: "state_of x \<noteq> Occupied"
    from owned_update[OF o, of x d] x have "owned (?es[d := x]) (2 ^ n)"
      by blast
    with c len h show ?thesis by simp
  qed
  with s show ?thesis by blast
qed

lemma run_sa_owned:
  assumes n: "n < 64"
  shows "cap hm = 2 ^ n \<Longrightarrow> length (entries_sa hm) = 2 ^ n \<Longrightarrow> owned (entries_sa hm) (2 ^ n) \<Longrightarrow>
     \<exists>hm'. run_sa hm ops = Inr hm' \<and> cap hm' = 2 ^ n \<and> owned (entries_sa hm') (2 ^ n)"
proof (induction ops arbitrary: hm)
  case Nil
  then show ?case by simp
next
  case (Cons x ops)
  show ?case
  proof (cases x)
    case (Set k v kok vok)
    from hashmap_set_sa_owned[OF Cons.prems(1) n Cons.prems(2,3), of k v kok vok]
    obtain hm1 r where r: "hashmap_set_sa hm k v kok vok = Inr (hm1, r)"
      and i: "cap hm1 = 2 ^ n" "length (entries_sa hm1) = 2 ^ n" "owned (entries_sa hm1) (2 ^ n)"
      by blast
    from Cons.IH[OF i] show ?thesis
      by (simp add: Set r)
  next
    case (Del k)
    from hashmap_delete_sa_owned[OF Cons.prems(1) n Cons.prems(2,3), of k]
    obtain hm1 where r: "hashmap_delete_sa hm k = Inr hm1"
      and i: "cap hm1 = 2 ^ n" "length (entries_sa hm1) = 2 ^ n" "owned (entries_sa hm1) (2 ^ n)"
      by blast
    from Cons.IH[OF i] show ?thesis
      by (simp add: Del r)
  qed
qed

text \<open>
  So in every state the standalone table reaches from a created one, whatever the
  copies do, the lookup is the lookup of the specification.
\<close>

lemma standalone_get_is_spec:
  assumes cr: "hashmap_create_sa mok cok expected_items = Some (Some hm0)"
  shows "\<exists>n hm. n < 64 \<and> run_sa hm0 ops = Inr hm \<and> cap hm = 2 ^ n \<and>
           (\<forall>k. hashmap_get_sa hm k = Inr (get_spec (entries_sa hm) (2 ^ n) (fnv_hash_sa k) k))"
proof -
  from cr obtain c where c: "next_pow2 (expected_items * 2 + 1) = Some c"
    and hm0: "hm0 = \<lparr>entries_sa = replicate (unat c) zero_entry, cap = c\<rparr>"
    by (auto simp: hashmap_create_sa_def split: option.splits if_splits)
  from c have "\<exists>n < 64. c = 2 ^ n"
    unfolding next_pow2_def
    by (rule next_pow2_loop_pow2) (auto intro: exI[of _ 0])
  then obtain n where n: "n < 64" "c = 2 ^ n" by blast
  have i: "cap hm0 = 2 ^ n" "length (entries_sa hm0) = 2 ^ n" "owned (entries_sa hm0) (2 ^ n)"
    using n by (simp_all add: hm0 unat_pow2_64 owned_fresh)
  from run_sa_owned[OF n(1) i, of ops] obtain hm where hm: "run_sa hm0 ops = Inr hm"
    "cap hm = 2 ^ n" "owned (entries_sa hm) (2 ^ n)"
    by blast
  have "\<forall>k. hashmap_get_sa hm k = Inr (get_spec (entries_sa hm) (2 ^ n) (fnv_hash_sa k) k)"
    using hashmap_get_sa_spec[OF hm(2) n(1) hm(3)] by simp
  with n(1) hm(1,2) show ?thesis by blast
qed

text \<open>The server's table keeps the ownership as long as the copies of the keys succeed.\<close>

lemma set_loop_owned:
  assumes o: "owned (entries hm) TABLE_SIZE"
  shows "i \<le> TABLE_SIZE \<Longrightarrow>
     hashmap_set_loop hm k v True vok (h AND of_nat (TABLE_SIZE - 1)) i = Inr hm' \<Longrightarrow>
     owned (entries hm') TABLE_SIZE"
proof (induction "TABLE_SIZE - i" arbitrary: i)
  case 0
  then have "i = TABLE_SIZE" by simp
  with 0 o show ?case
    by (simp add: set_loop_exit)
next
  case (Suc m)
  from Suc have lt: "i < TABLE_SIZE" by simp
  define p where "p = (unat h mod TABLE_SIZE + i) mod TABLE_SIZE"
  define e where "e = entries hm ! p"
  note st = set_loop_step[OF lt, of hm k v True vok h, unfolded Let_def, folded p_def, folded e_def]
  note g = Suc.prems(2)[unfolded st]
  have m: "m = TABLE_SIZE - (i + 1)"
    using Suc.hyps(2) by simp
  have le: "i + 1 \<le> TABLE_SIZE"
    using lt by simp
  show ?case
  proof (cases "used e = 0 \<or> deleted e \<noteq> 0")
    case True
    with g have "hm' = hm\<lparr>entries := (entries hm)
        [p := e\<lparr>key := Ptr k, val := strdup vok v, used := 1, deleted := 0\<rparr>]\<rparr>"
      by (auto simp: strdup_def)
    moreover have "owned ((entries hm)
        [p := e\<lparr>key := Ptr k, val := strdup vok v, used := 1, deleted := 0\<rparr>]) TABLE_SIZE"
      by (rule owned_update[OF o]) simp
    ultimately show ?thesis by simp
  next
    case False
    then have u: "used e \<noteq> 0" "deleted e = 0" by simp_all
    have "p < TABLE_SIZE"
      using lt by (simp add: p_def)
    from owned_live[OF o this] u obtain t where t: "key e = Ptr t"
      by (auto simp: e_def)
    show ?thesis
    proof (cases "t = k")
      case True
      with g u t have "hm' = hm\<lparr>entries := (entries hm)[p := e\<lparr>val := strdup vok v\<rparr>]\<rparr>"
        by simp
      moreover have "owned ((entries hm)[p := e\<lparr>val := strdup vok v\<rparr>]) TABLE_SIZE"
        by (rule owned_update[OF o]) (simp add: t)
      ultimately show ?thesis by simp
    next
      case False
      with g u t have "hashmap_set_loop hm k v True vok (h AND of_nat (TABLE_SIZE - 1)) (i + 1)
          = Inr hm'"
        by simp
      from Suc.hyps(1)[OF m le this] show ?thesis .
    qed
  qed
qed

lemma delete_loop_owned:
  assumes o: "owned (entries hm) TABLE_SIZE"
  shows "i \<le> TABLE_SIZE \<Longrightarrow>
     hashmap_delete_loop hm k (h AND of_nat (TABLE_SIZE - 1)) i = Inr hm' \<Longrightarrow>
     owned (entries hm') TABLE_SIZE"
proof (induction "TABLE_SIZE - i" arbitrary: i)
  case 0
  then have "i = TABLE_SIZE" by simp
  with 0 o show ?case
    by (simp add: delete_loop_exit)
next
  case (Suc m)
  from Suc have lt: "i < TABLE_SIZE" by simp
  define p where "p = (unat h mod TABLE_SIZE + i) mod TABLE_SIZE"
  define e where "e = entries hm ! p"
  note st = delete_loop_step[OF lt, of hm k h, unfolded Let_def, folded p_def, folded e_def]
  note g = Suc.prems(2)[unfolded st]
  have m: "m = TABLE_SIZE - (i + 1)"
    using Suc.hyps(2) by simp
  have le: "i + 1 \<le> TABLE_SIZE"
    using lt by simp
  show ?case
  proof (cases "used e = 0")
    case True
    with g o show ?thesis by simp
  next
    case False
    note u = this
    show ?thesis
    proof (cases "streq (key e) k")
      case (Inl f)
      with g u show ?thesis by simp
    next
      case (Inr b)
      show ?thesis
      proof (cases b)
        case True
        with g u Inr have "hm' = hm\<lparr>entries := (entries hm)
            [p := e\<lparr>key := freed (key e), val := freed (val e), deleted := 1\<rparr>]\<rparr>"
          by simp
        moreover have "owned ((entries hm)
            [p := e\<lparr>key := freed (key e), val := freed (val e), deleted := 1\<rparr>]) TABLE_SIZE"
          by (rule owned_update[OF o]) (simp add: state_of_def split: if_splits)
        ultimately show ?thesis by simp
      next
        case False
        with g u Inr have "hashmap_delete_loop hm k (h AND of_nat (TABLE_SIZE - 1)) (i + 1) = Inr hm'"
          by simp
        from Suc.hyps(1)[OF m le this] show ?thesis .
      qed
    qed
  qed
qed

lemma run_owned:
  "owned (entries hm) TABLE_SIZE \<Longrightarrow> \<forall>x \<in> set ops. key_copy_ok x \<Longrightarrow>
   run hm ops = Inr hm' \<Longrightarrow> owned (entries hm') TABLE_SIZE"
proof (induction ops arbitrary: hm)
  case Nil
  then show ?case by simp
next
  case (Cons x ops)
  show ?case
  proof (cases x)
    case (Set k v kok vok)
    with Cons.prems(2) have ok: "kok" by simp
    from Cons.prems(3) Set ok obtain hm1 where
      s: "hashmap_set hm k v True vok = Inr hm1" and rest: "run hm1 ops = Inr hm'"
      by (auto split: sum.splits)
    have "owned (entries hm1) TABLE_SIZE"
      by (rule set_loop_owned[OF Cons.prems(1), where i = 0])
         (use s in \<open>simp_all add: hashmap_set_def\<close>)
    from Cons.IH[OF this _ rest] Cons.prems(2) show ?thesis by simp
  next
    case (Del k)
    from Cons.prems(3) Del obtain hm1 where
      s: "hashmap_delete hm k = Inr hm1" and rest: "run hm1 ops = Inr hm'"
      by (auto split: sum.splits)
    have "owned (entries hm1) TABLE_SIZE"
      by (rule delete_loop_owned[OF Cons.prems(1), where i = 0])
         (use s in \<open>simp_all add: hashmap_delete_def\<close>)
    from Cons.IH[OF this _ rest] Cons.prems(2) show ?thesis by simp
  qed
qed

lemma server_get_is_spec:
  assumes ok: "\<forall>x \<in> set ops. key_copy_ok x" and r: "run empty_table ops = Inr hm"
  shows "hashmap_get hm k = Inr (get_spec (entries hm) TABLE_SIZE (fnv_hash k) k)"
proof -
  have "owned (entries empty_table) TABLE_SIZE"
    by (simp add: empty_table_def owned_fresh)
  from run_owned[OF this ok r] show ?thesis
    by (rule hashmap_get_spec)
qed

text \<open>
  A negative length in the header asks for a body buffer that \<^verbatim>\<open>malloc\<close> cannot give;
  the \<^verbatim>\<open>read\<close> into the \<^verbatim>\<open>NULL\<close> buffer fails and the server exits without a reply.
\<close>

lemma negative_length_ends_process:
  "handle_pkt kok vok (request ''-5:get:a'') hm = Inl Exited"
  by (simp add: eval_pkt)

section \<open>The hash and the start of the probe sequence in set, get and delete\<close>

text \<open>
  What each of the six operations does when the slot at the start index of the
  specification is unused, and when it holds the key.
\<close>

lemma fnv_hash_reference: "fnv_hash k = fnv1a_reference k"
  by (simp add: fnv_hash_def fnv1a_reference_def FNV_OFFSET_def fnv_hash_loop_foldl)

lemma fnv_hash_sa_reference: "fnv_hash_sa k = fnv1a_reference k"
  by (simp add: fnv_hash_sa_eq fnv_hash_reference)

lemma server_start_empty:
  assumes u: "used (entries hm ! start_index TABLE_SIZE k) = 0"
  shows "hashmap_get hm k = Inr Null"
    and "hashmap_delete hm k = Inr hm"
    and "hashmap_set hm k v kok vok =
           Inr (hm\<lparr>entries := (entries hm)[start_index TABLE_SIZE k :=
                  (entries hm ! start_index TABLE_SIZE k)
                    \<lparr>key := strdup kok k, val := strdup vok v, used := 1, deleted := 0\<rparr>]\<rparr>)"
proof -
  have s: "(unat (fnv_hash k) mod TABLE_SIZE + 0) mod TABLE_SIZE = start_index TABLE_SIZE k"
    by (simp add: start_index_def fnv_hash_reference)
  show "hashmap_get hm k = Inr Null"
    unfolding hashmap_get_def get_loop_step[OF TABLE_SIZE_pos] Let_def s
    using u by simp
  show "hashmap_delete hm k = Inr hm"
    unfolding hashmap_delete_def delete_loop_step[OF TABLE_SIZE_pos] Let_def s
    using u by simp
  show "hashmap_set hm k v kok vok =
           Inr (hm\<lparr>entries := (entries hm)[start_index TABLE_SIZE k :=
                  (entries hm ! start_index TABLE_SIZE k)
                    \<lparr>key := strdup kok k, val := strdup vok v, used := 1, deleted := 0\<rparr>]\<rparr>)"
    unfolding hashmap_set_def set_loop_step[OF TABLE_SIZE_pos] Let_def s
    using u by simp
qed

lemma server_start_holds:
  assumes h: "holds k (entries hm ! start_index TABLE_SIZE k)"
  shows "hashmap_get hm k = Inr (val (entries hm ! start_index TABLE_SIZE k))"
    and "hashmap_delete hm k =
           Inr (hm\<lparr>entries := (entries hm)[start_index TABLE_SIZE k :=
                  (entries hm ! start_index TABLE_SIZE k)
                    \<lparr>key := Dangling,
                     val := freed (val (entries hm ! start_index TABLE_SIZE k)),
                     deleted := 1\<rparr>]\<rparr>)"
    and "hashmap_set hm k v kok vok =
           Inr (hm\<lparr>entries := (entries hm)[start_index TABLE_SIZE k :=
                  (entries hm ! start_index TABLE_SIZE k)\<lparr>val := strdup vok v\<rparr>]\<rparr>)"
proof -
  have s: "(unat (fnv_hash k) mod TABLE_SIZE + 0) mod TABLE_SIZE = start_index TABLE_SIZE k"
    by (simp add: start_index_def fnv_hash_reference)
  from h have u: "used (entries hm ! start_index TABLE_SIZE k) \<noteq> 0"
    "deleted (entries hm ! start_index TABLE_SIZE k) = 0"
    "key (entries hm ! start_index TABLE_SIZE k) = Ptr k"
    by (simp_all add: holds_def)
  show "hashmap_get hm k = Inr (val (entries hm ! start_index TABLE_SIZE k))"
    unfolding hashmap_get_def get_loop_step[OF TABLE_SIZE_pos] Let_def s
    using u by simp
  show "hashmap_delete hm k =
           Inr (hm\<lparr>entries := (entries hm)[start_index TABLE_SIZE k :=
                  (entries hm ! start_index TABLE_SIZE k)
                    \<lparr>key := Dangling,
                     val := freed (val (entries hm ! start_index TABLE_SIZE k)),
                     deleted := 1\<rparr>]\<rparr>)"
    unfolding hashmap_delete_def delete_loop_step[OF TABLE_SIZE_pos] Let_def s
    using u by simp
  show "hashmap_set hm k v kok vok =
           Inr (hm\<lparr>entries := (entries hm)[start_index TABLE_SIZE k :=
                  (entries hm ! start_index TABLE_SIZE k)\<lparr>val := strdup vok v\<rparr>]\<rparr>)"
    unfolding hashmap_set_def set_loop_step[OF TABLE_SIZE_pos] Let_def s
    using u by simp
qed

lemma standalone_start_empty:
  assumes c: "cap hs = 2 ^ n" "n < 64"
    and u: "used (entries_sa hs ! start_index (unat (cap hs)) k) = 0"
  shows "hashmap_get_sa hs k = Inr Null"
    and "hashmap_delete_sa hs k = Inr hs"
    and "hashmap_set_sa hs k v True True =
           Inr (hs\<lparr>entries_sa := (entries_sa hs)[start_index (unat (cap hs)) k :=
                  (entries_sa hs ! start_index (unat (cap hs)) k)
                    \<lparr>key := Ptr k, val := Ptr v, used := 1, deleted := 0\<rparr>]\<rparr>, 0)"
proof -
  have p: "(0::nat) < 2 ^ n" by simp
  have s: "(unat (fnv_hash_sa k) mod 2 ^ n + 0) mod 2 ^ n = start_index (unat (cap hs)) k"
    by (simp add: start_index_def fnv_hash_sa_reference c unat_pow2_64)
  show "hashmap_get_sa hs k = Inr Null"
    unfolding hashmap_get_sa_def get_sa_loop_step[OF c p] Let_def s
    using u by simp
  show "hashmap_delete_sa hs k = Inr hs"
    unfolding hashmap_delete_sa_def delete_sa_loop_step[OF c p] Let_def s
    using u by simp
  show "hashmap_set_sa hs k v True True =
           Inr (hs\<lparr>entries_sa := (entries_sa hs)[start_index (unat (cap hs)) k :=
                  (entries_sa hs ! start_index (unat (cap hs)) k)
                    \<lparr>key := Ptr k, val := Ptr v, used := 1, deleted := 0\<rparr>]\<rparr>, 0)"
    unfolding hashmap_set_sa_def set_sa_loop_step[OF c p] Let_def s
    using u by (simp add: strdup_def)
qed

lemma standalone_start_holds:
  assumes c: "cap hs = 2 ^ n" "n < 64"
    and h: "holds k (entries_sa hs ! start_index (unat (cap hs)) k)"
  shows "hashmap_get_sa hs k = Inr (val (entries_sa hs ! start_index (unat (cap hs)) k))"
    and "hashmap_delete_sa hs k =
           Inr (hs\<lparr>entries_sa := (entries_sa hs)[start_index (unat (cap hs)) k :=
                  (entries_sa hs ! start_index (unat (cap hs)) k)
                    \<lparr>key := Null, val := Null, deleted := 1\<rparr>]\<rparr>)"
    and "hashmap_set_sa hs k v kok True =
           Inr (hs\<lparr>entries_sa := (entries_sa hs)[start_index (unat (cap hs)) k :=
                  (entries_sa hs ! start_index (unat (cap hs)) k)\<lparr>val := Ptr v\<rparr>]\<rparr>, 0)"
proof -
  have p: "(0::nat) < 2 ^ n" by simp
  have s: "(unat (fnv_hash_sa k) mod 2 ^ n + 0) mod 2 ^ n = start_index (unat (cap hs)) k"
    by (simp add: start_index_def fnv_hash_sa_reference c unat_pow2_64)
  from h have u: "used (entries_sa hs ! start_index (unat (cap hs)) k) \<noteq> 0"
    "deleted (entries_sa hs ! start_index (unat (cap hs)) k) = 0"
    "key (entries_sa hs ! start_index (unat (cap hs)) k) = Ptr k"
    by (simp_all add: holds_def)
  show "hashmap_get_sa hs k = Inr (val (entries_sa hs ! start_index (unat (cap hs)) k))"
    unfolding hashmap_get_sa_def get_sa_loop_step[OF c p] Let_def s
    using u by simp
  show "hashmap_delete_sa hs k =
           Inr (hs\<lparr>entries_sa := (entries_sa hs)[start_index (unat (cap hs)) k :=
                  (entries_sa hs ! start_index (unat (cap hs)) k)
                    \<lparr>key := Null, val := Null, deleted := 1\<rparr>]\<rparr>)"
    unfolding hashmap_delete_sa_def delete_sa_loop_step[OF c p] Let_def s
    using u by simp
  show "hashmap_set_sa hs k v kok True =
           Inr (hs\<lparr>entries_sa := (entries_sa hs)[start_index (unat (cap hs)) k :=
                  (entries_sa hs ! start_index (unat (cap hs)) k)\<lparr>val := Ptr v\<rparr>]\<rparr>, 0)"
    unfolding hashmap_set_sa_def set_sa_loop_step[OF c p] Let_def s
    using u by (simp add: strdup_def)
qed

text \<open>
  C9. The hash of both tables is FNV-1a as the specification defines it (offset basis
  0xcbf29ce484222325, prime 0x100000001b3, xor then multiply, modulo 2^64), and the two
  tables compute the same hash. The bitmask \<open>hash AND (capacity - 1)\<close> is
  \<open>hash mod capacity\<close>: the server's capacity is \<open>2^10\<close> and a created standalone table
  has a power of two below \<open>2^64\<close> as its capacity. Set, get and delete of both tables
  start their walk from the masked FNV-1a hash of the key, and the first slot they
  look at is the one at \<open>hash mod capacity\<close>: when it is unused the lookup says
  not-found, the delete changes nothing and the set writes the key there; when it
  holds the key the lookup returns its value, the delete makes it a Tombstone and the
  set replaces its value.
\<close>

theorem fnv_hash_is_fnv1a:
  "fnv_hash k = fnv1a_reference k \<and> fnv_hash_sa k = fnv1a_reference k \<and>
   unat (fnv_hash k AND of_nat (TABLE_SIZE - 1)) = unat (fnv_hash k) mod TABLE_SIZE \<and>
   (n < 64 \<longrightarrow>
      unat (fnv_hash_sa k AND ((2 ^ n :: 64 word) - 1)) = unat (fnv_hash_sa k) mod unat (2 ^ n :: 64 word)) \<and>
   TABLE_SIZE = 2 ^ 10 \<and>
   (hashmap_create_sa mok cok expected_items = Some (Some hc) \<longrightarrow> (\<exists>m < 64. cap hc = 2 ^ m)) \<and>
   hashmap_set hm k v kok vok =
     hashmap_set_loop hm k v kok vok (fnv1a_reference k AND of_nat (TABLE_SIZE - 1)) 0 \<and>
   hashmap_get hm k = hashmap_get_loop hm k (fnv1a_reference k AND of_nat (TABLE_SIZE - 1)) 0 \<and>
   hashmap_delete hm k =
     hashmap_delete_loop hm k (fnv1a_reference k AND of_nat (TABLE_SIZE - 1)) 0 \<and>
   hashmap_set_sa hs k v kok vok =
     hashmap_set_sa_loop hs k v kok vok (fnv1a_reference k AND (cap hs - 1)) (-1) 0 \<and>
   hashmap_get_sa hs k = hashmap_get_sa_loop hs k (fnv1a_reference k AND (cap hs - 1)) 0 \<and>
   hashmap_delete_sa hs k = hashmap_delete_sa_loop hs k (fnv1a_reference k AND (cap hs - 1)) 0 \<and>
   (used (entries hm ! start_index TABLE_SIZE k) = 0 \<longrightarrow>
      hashmap_get hm k = Inr Null \<and> hashmap_delete hm k = Inr hm \<and>
      hashmap_set hm k v kok vok =
        Inr (hm\<lparr>entries := (entries hm)[start_index TABLE_SIZE k :=
               (entries hm ! start_index TABLE_SIZE k)
                 \<lparr>key := strdup kok k, val := strdup vok v, used := 1, deleted := 0\<rparr>]\<rparr>)) \<and>
   (holds k (entries hm ! start_index TABLE_SIZE k) \<longrightarrow>
      hashmap_get hm k = Inr (val (entries hm ! start_index TABLE_SIZE k)) \<and>
      hashmap_delete hm k =
        Inr (hm\<lparr>entries := (entries hm)[start_index TABLE_SIZE k :=
               (entries hm ! start_index TABLE_SIZE k)
                 \<lparr>key := Dangling,
                  val := freed (val (entries hm ! start_index TABLE_SIZE k)),
                  deleted := 1\<rparr>]\<rparr>) \<and>
      hashmap_set hm k v kok vok =
        Inr (hm\<lparr>entries := (entries hm)[start_index TABLE_SIZE k :=
               (entries hm ! start_index TABLE_SIZE k)\<lparr>val := strdup vok v\<rparr>]\<rparr>)) \<and>
   (cap hs = 2 ^ n \<and> n < 64 \<and> used (entries_sa hs ! start_index (unat (cap hs)) k) = 0 \<longrightarrow>
      hashmap_get_sa hs k = Inr Null \<and> hashmap_delete_sa hs k = Inr hs \<and>
      hashmap_set_sa hs k v True True =
        Inr (hs\<lparr>entries_sa := (entries_sa hs)[start_index (unat (cap hs)) k :=
               (entries_sa hs ! start_index (unat (cap hs)) k)
                 \<lparr>key := Ptr k, val := Ptr v, used := 1, deleted := 0\<rparr>]\<rparr>, 0)) \<and>
   (cap hs = 2 ^ n \<and> n < 64 \<and> holds k (entries_sa hs ! start_index (unat (cap hs)) k) \<longrightarrow>
      hashmap_get_sa hs k = Inr (val (entries_sa hs ! start_index (unat (cap hs)) k)) \<and>
      hashmap_delete_sa hs k =
        Inr (hs\<lparr>entries_sa := (entries_sa hs)[start_index (unat (cap hs)) k :=
               (entries_sa hs ! start_index (unat (cap hs)) k)
                 \<lparr>key := Null, val := Null, deleted := 1\<rparr>]\<rparr>) \<and>
      hashmap_set_sa hs k v kok True =
        Inr (hs\<lparr>entries_sa := (entries_sa hs)[start_index (unat (cap hs)) k :=
               (entries_sa hs ! start_index (unat (cap hs)) k)\<lparr>val := Ptr v\<rparr>]\<rparr>, 0))"
proof -
  have a: "fnv_hash k = fnv1a_reference k"
    by (rule fnv_hash_reference)
  have b: "fnv_hash_sa k = fnv1a_reference k"
    by (rule fnv_hash_sa_reference)
  have "(of_nat (TABLE_SIZE - 1) :: 64 word) = 2 ^ 10 - 1"
    by (simp add: TABLE_SIZE_def)
  then have c: "unat (fnv_hash k AND of_nat (TABLE_SIZE - 1)) = unat (fnv_hash k) mod TABLE_SIZE"
    by (simp only: unat_and_pow2_minus_1) (simp add: TABLE_SIZE_def)
  have d: "n < 64 \<longrightarrow>
      unat (fnv_hash_sa k AND ((2 ^ n :: 64 word) - 1)) = unat (fnv_hash_sa k) mod unat (2 ^ n :: 64 word)"
    by (simp only: unat_and_pow2_minus_1) (simp add: unat_pow2_64)
  have e: "TABLE_SIZE = 2 ^ 10"
    by (simp add: TABLE_SIZE_def)
  have f: "hashmap_create_sa mok cok expected_items = Some (Some hc) \<longrightarrow> (\<exists>m < 64. cap hc = 2 ^ m)"
    using hashmap_create_sa_pow2[of mok cok expected_items hc] by blast
  have g: "hashmap_set hm k v kok vok =
     hashmap_set_loop hm k v kok vok (fnv1a_reference k AND of_nat (TABLE_SIZE - 1)) 0"
    "hashmap_get hm k = hashmap_get_loop hm k (fnv1a_reference k AND of_nat (TABLE_SIZE - 1)) 0"
    "hashmap_delete hm k =
     hashmap_delete_loop hm k (fnv1a_reference k AND of_nat (TABLE_SIZE - 1)) 0"
    by (simp_all only: hashmap_set_def hashmap_get_def hashmap_delete_def a)
  have h: "hashmap_set_sa hs k v kok vok =
     hashmap_set_sa_loop hs k v kok vok (fnv1a_reference k AND (cap hs - 1)) (-1) 0"
    "hashmap_get_sa hs k = hashmap_get_sa_loop hs k (fnv1a_reference k AND (cap hs - 1)) 0"
    "hashmap_delete_sa hs k = hashmap_delete_sa_loop hs k (fnv1a_reference k AND (cap hs - 1)) 0"
    by (simp_all only: hashmap_set_sa_def hashmap_get_sa_def hashmap_delete_sa_def b)
  note i = server_start_empty
  note j = server_start_holds
  note l = standalone_start_empty
  note m = standalone_start_holds
  show ?thesis
    apply (intro conjI impI)
    apply (rule a)
    apply (rule b)
    apply (rule c)
    apply (rule d[rule_format], assumption)
    apply (rule e)
    apply (rule f[rule_format], assumption)
    apply (rule g(1))
    apply (rule g(2))
    apply (rule g(3))
    apply (rule h(1))
    apply (rule h(2))
    apply (rule h(3))
    apply (erule i(1))
    apply (erule i(2))
    apply (erule i(3))
    apply (erule j(1))
    apply (erule j(2))
    apply (erule j(3))
    apply (elim conjE, erule (2) l(1))
    apply (elim conjE, erule (2) l(2))
    apply (elim conjE, erule (2) l(3))
    apply (elim conjE, erule (2) m(1))
    apply (elim conjE, erule (2) m(2))
    apply (elim conjE, erule (2) m(3))
    done
qed

theorem fnv_hash_is_fnv1a_witness:
  "(2::nat) < 64 \<and> (4 :: 64 word) = 2 ^ 2 \<and>
   fnv_hash ''k0'' = fnv1a_reference ''k0'' \<and>
   fnv_hash_sa ''k0'' = fnv1a_reference ''k0'' \<and>
   start_index TABLE_SIZE ''k0'' = 782 \<and>
   start_index (unat (4 :: 64 word)) ''k0'' = 2 \<and>
   hashmap_create_sa True True 1
     = Some (Some \<lparr>entries_sa = [zero_entry, zero_entry, zero_entry, zero_entry], cap = 4\<rparr>) \<and>
   used (entries empty_table ! 782) = 0 \<and>
   hashmap_get empty_table ''k0'' = Inr Null \<and>
   hashmap_delete empty_table ''k0'' = Inr empty_table \<and>
   hashmap_set empty_table ''k0'' ''1'' True True
     = Inr \<lparr>entries = (replicate TABLE_SIZE zero_entry)[782 := occ ''k0'' ''1'']\<rparr> \<and>
   holds ''k0'' (entries \<lparr>entries = (replicate TABLE_SIZE zero_entry)[782 := occ ''k0'' ''1'']\<rparr> ! 782) \<and>
   hashmap_get \<lparr>entries = (replicate TABLE_SIZE zero_entry)[782 := occ ''k0'' ''1'']\<rparr> ''k0''
     = Inr (Ptr ''1'') \<and>
   hashmap_delete \<lparr>entries = (replicate TABLE_SIZE zero_entry)[782 := occ ''k0'' ''1'']\<rparr> ''k0''
     = Inr \<lparr>entries = (replicate TABLE_SIZE zero_entry)
             [782 := \<lparr>key = Dangling, val = Dangling, used = 1, deleted = 1\<rparr>]\<rparr> \<and>
   hashmap_set \<lparr>entries = (replicate TABLE_SIZE zero_entry)[782 := occ ''k0'' ''1'']\<rparr>
       ''k0'' ''2'' True True
     = Inr \<lparr>entries = (replicate TABLE_SIZE zero_entry)[782 := occ ''k0'' ''2'']\<rparr> \<and>
   used (entries_sa \<lparr>entries_sa = [zero_entry, zero_entry, zero_entry, zero_entry], cap = 4\<rparr> ! 2) = 0 \<and>
   hashmap_get_sa \<lparr>entries_sa = [zero_entry, zero_entry, zero_entry, zero_entry], cap = 4\<rparr> ''k0''
     = Inr Null \<and>
   hashmap_set_sa \<lparr>entries_sa = [zero_entry, zero_entry, zero_entry, zero_entry], cap = 4\<rparr>
       ''k0'' ''1'' True True
     = Inr (\<lparr>entries_sa = [zero_entry, zero_entry, occ ''k0'' ''1'', zero_entry], cap = 4\<rparr>, 0) \<and>
   holds ''k0''
     (entries_sa \<lparr>entries_sa = [zero_entry, zero_entry, occ ''k0'' ''1'', zero_entry], cap = 4\<rparr> ! 2) \<and>
   hashmap_get_sa \<lparr>entries_sa = [zero_entry, zero_entry, occ ''k0'' ''1'', zero_entry], cap = 4\<rparr>
       ''k0''
     = Inr (Ptr ''1'') \<and>
   hashmap_delete_sa
       \<lparr>entries_sa = [zero_entry, zero_entry, occ ''k0'' ''1'', zero_entry], cap = 4\<rparr> ''k0''
     = Inr \<lparr>entries_sa = [zero_entry, zero_entry,
                            \<lparr>key = Null, val = Null, used = 1, deleted = 1\<rparr>, zero_entry],
            cap = 4\<rparr>"
  using fnv_hash_is_fnv1a[where k = "''k0''" and n = 2 and mok = True and cok = True
      and expected_items = 1
      and hc = "\<lparr>entries_sa = [zero_entry, zero_entry, zero_entry, zero_entry], cap = 4\<rparr>"
      and hm = empty_table and v = "''1''" and kok = True and vok = True
      and hs = "\<lparr>entries_sa = [zero_entry, zero_entry, zero_entry, zero_entry], cap = 4\<rparr>"]
    fnv_hash_is_fnv1a[where k = "''k0''" and n = 2 and mok = True and cok = True
      and expected_items = 1
      and hc = "\<lparr>entries_sa = [zero_entry, zero_entry, zero_entry, zero_entry], cap = 4\<rparr>"
      and hm = "\<lparr>entries = (replicate TABLE_SIZE zero_entry)[782 := occ ''k0'' ''1'']\<rparr>"
      and v = "''2''" and kok = True and vok = True
      and hs = "\<lparr>entries_sa = [zero_entry, zero_entry, occ ''k0'' ''1'', zero_entry], cap = 4\<rparr>"]
  by (simp add: eval_srv eval_sa occ_def holds_def start_index_def fnv1a_reference_def
      hashmap_create_sa_def next_pow2_def next_pow2_loop.simps replicate_4)

end
